theory Spec2Isabelle
  imports
    Complex_Main
    "HOL-Library.Word"
    "HOL-Library.Char_ord"
    "HOL-Library.List_Lexorder"
    "HOL-Library.Log_Nat"
begin

text \<open>
  The account router of the banking demo: account creation, funding and the transaction
  history, over the SQLite store of \<open>src/lib/db/index.ts\<close>. The repository holds two
  copies of the router, \<open>src/server/routers/account.ts\<close> and \<open>src/unnamed/part_000\<close>,
  which differ in the funding handler; both are modelled.
\<close>

section \<open>Currency values\<close>

text \<open>
  The columns \<open>accounts.balance\<close> and \<open>transactions.amount\<close> are SQLite \<open>REAL\<close>s and the
  handlers compute on JavaScript numbers: both are IEEE 754 doubles. A double is modelled
  by the rational number it denotes, and an operation on doubles by its exact result
  rounded to the nearest double. The rational \<open>2 ^ 1024\<close>, which is the value of no double,
  stands for \<open>Infinity\<close>: among values that are not negative it adds and compares as
  \<open>Infinity\<close> does. The handlers neither subtract nor divide, so \<open>NaN\<close> and the negative
  zero do not arise.
\<close>

type_synonym money = rat

text \<open>The nearest integer, the even one of the two on a tie.\<close>

definition round_half_even :: "rat \<Rightarrow> int" where
  "round_half_even y =
     (let n = \<lfloor>y\<rfloor>; r = y - of_int n
      in if r < 1 / 2 then n else if 1 / 2 < r then n + 1 else if even n then n else n + 1)"

text \<open>The binary exponent of a positive rational \<open>x\<close>: the \<open>e\<close> with \<open>2\<^sup>e \<le> x < 2\<^sup>e\<^sup>+\<^sup>1\<close>.\<close>

definition binade :: "rat \<Rightarrow> int" where
  "binade x =
     (if 1 \<le> x then int (floorlog 2 (nat \<lfloor>x\<rfloor>)) - 1
      else - int (floorlog 2 (nat (\<lceil>1 / x\<rceil> - 1))))"

text \<open>
  The double nearest to a rational, as IEEE 754 rounds (to nearest, ties to even): a
  significand of 53 bits, the exponent of the last bit no less than \<open>-1074\<close>, and from
  \<open>2 ^ 1024 - 2 ^ 970\<close> on (half a step beyond the largest double) the result is
  \<open>Infinity\<close>.
\<close>

definition to_double :: "rat \<Rightarrow> money" where
  "to_double x =
     (if x = 0 then 0
      else if 2 ^ 1024 - 2 ^ 970 \<le> \<bar>x\<bar> then sgn x * 2 ^ 1024
      else
        let e = max (binade \<bar>x\<bar> - 52) (- 1074)
        in sgn x * (of_int (round_half_even (\<bar>x\<bar> / 2 powi e)) * 2 powi e))"

text \<open>\<open>a + b\<close> on doubles, in JavaScript and on \<open>REAL\<close>s in SQLite.\<close>

definition double_add :: "money \<Rightarrow> money \<Rightarrow> money" where
  "double_add a b = to_double (a + b)"

text \<open>
  The value with two decimals nearest to \<open>x\<close>, a tie going away from zero. It is the value
  of the numeral that \<open>x.toFixed(2)\<close> prints (\<open>toFixed\<close> treats the sign apart and picks the
  integer \<open>n\<close> with \<open>n / 100\<close> closest to \<open>|x|\<close>, the larger one on a tie; from \<open>10\<^sup>2\<^sup>1\<close> on
  it prints the double itself, which is a whole number), and the value to which SQLite's
  \<open>round(X, 2)\<close> rounds.
\<close>

definition decimal2 :: "rat \<Rightarrow> rat" where
  "decimal2 x = (if x < 0 then - (of_int \<lfloor>(- x) * 100 + 1 / 2\<rfloor> / 100)
                 else of_int \<lfloor>x * 100 + 1 / 2\<rfloor> / 100)"

text \<open>\<open>Number(x.toFixed(2))\<close>: the numeral printed by \<open>toFixed\<close>, read back as a double.\<close>

definition toFixed2 :: "money \<Rightarrow> money" where
  "toFixed2 x = to_double (decimal2 x)"

text \<open>
  SQLite's \<open>round(X, 2)\<close>: it prints \<open>X\<close> with two decimals, a half going away from zero,
  and reads the numeral back as a double.
\<close>

definition sql_round2 :: "money \<Rightarrow> money" where
  "sql_round2 x = to_double (decimal2 x)"

text \<open>A value with at most two decimal digits: a whole number of cents.\<close>

definition two_decimals :: "rat \<Rightarrow> bool" where
  "two_decimals x \<longleftrightarrow> of_int \<lfloor>x * 100\<rfloor> = x * 100"

section \<open>Strings and regular expressions\<close>

text \<open>
  A JavaScript string is a sequence of UTF-16 code units. The text of an amount, which
  the handler trims, matches and reads as a number, is modelled as the list of its code
  units; \<open>units\<close> gives the code units of a string whose characters are all below 256, as
  the string literals of the source are. The other strings (of the store and of the
  funding source) are modelled as \<open>string\<close>, one \<open>char\<close> per code unit below 256.
\<close>

type_synonym code_unit = nat

definition units :: "string \<Rightarrow> code_unit list" where
  "units s = map of_char s"

text \<open>
  \<open>String.prototype.trim\<close> removes white space and line terminators at both ends: TAB, LF,
  VT, FF, CR, SPACE, NBSP, U+1680, U+2000 to U+200A, U+2028, U+2029, U+202F, U+205F,
  U+3000 and U+FEFF.
\<close>

definition is_space :: "code_unit \<Rightarrow> bool" where
  "is_space c \<longleftrightarrow>
     c \<in> {9, 10, 11, 12, 13, 32, 160, 5760, 8232, 8233, 8239, 8287, 12288, 65279}
     \<or> (8192 \<le> c \<and> c \<le> 8202)"

definition trim :: "code_unit list \<Rightarrow> code_unit list" where
  "trim s = rev (dropWhile is_space (rev (dropWhile is_space s)))"

text \<open>
  The fragment of JavaScript regular expressions the handlers use; a class lists its
  characters.
\<close>

datatype rexp =
    Zero
  | One
  | Cls "char list"
  | Alt rexp rexp
  | Seq rexp rexp
  | Star rexp

fun nullable :: "rexp \<Rightarrow> bool" where
  "nullable Zero = False"
| "nullable One = True"
| "nullable (Cls cs) = False"
| "nullable (Alt r s) = (nullable r \<or> nullable s)"
| "nullable (Seq r s) = (nullable r \<and> nullable s)"
| "nullable (Star r) = True"

fun deriv :: "code_unit \<Rightarrow> rexp \<Rightarrow> rexp" where
  "deriv c Zero = Zero"
| "deriv c One = Zero"
| "deriv c (Cls cs) = (if c \<in> set (units cs) then One else Zero)"
| "deriv c (Alt r s) = Alt (deriv c r) (deriv c s)"
| "deriv c (Seq r s) =
     (if nullable r then Alt (Seq (deriv c r) s) (deriv c s) else Seq (deriv c r) s)"
| "deriv c (Star r) = Seq (deriv c r) (Star r)"

text \<open>\<open>/^r$/.test(s)\<close>: the whole of \<open>s\<close> matches \<open>r\<close> (no flags, so \<open>$\<close> is the end of input).\<close>

fun test :: "rexp \<Rightarrow> code_unit list \<Rightarrow> bool" where
  "test r [] = nullable r"
| "test r (c # cs) = test (deriv c r) cs"

abbreviation Opt :: "rexp \<Rightarrow> rexp" where
  "Opt r \<equiv> Alt r One"

text \<open>\<open>\d\<close> without the unicode flag is \<open>[0-9]\<close>.\<close>

definition digit :: rexp where
  "digit = Cls ''0123456789''"

text \<open>\<open>/^(?:0|[1-9]\d*)(?:\.\d{1,2})?$/\<close>\<close>

definition amount_re :: rexp where
  "amount_re =
     Seq (Alt (Cls ''0'') (Seq (Cls ''123456789'') (Star digit)))
         (Opt (Seq (Cls ''.'') (Seq digit (Opt digit))))"

text \<open>\<open>/^\d{9}$/\<close>\<close>

definition routing_re :: rexp where
  "routing_re =
     Seq digit (Seq digit (Seq digit (Seq digit (Seq digit
       (Seq digit (Seq digit (Seq digit digit)))))))"

text \<open>The number that a string of decimal digits denotes.\<close>

definition digit_val :: "char \<Rightarrow> nat" where
  "digit_val c = of_char c - 48"

definition digits_val :: "string \<Rightarrow> nat" where
  "digits_val ds = foldl (\<lambda>n c. 10 * n + digit_val c) 0 ds"

text \<open>
  The mathematical value of a decimal literal, given by its code units: the digits before
  the point as a natural number, plus the digits after it scaled by their count.
\<close>

definition digits_value :: "code_unit list \<Rightarrow> nat" where
  "digits_value ds = foldl (\<lambda>n c. 10 * n + (c - 48)) 0 ds"

definition decimal_value :: "code_unit list \<Rightarrow> rat" where
  "decimal_value s =
     (let ip = takeWhile (\<lambda>c. c \<noteq> of_char CHR ''.'') s;
          fp = drop (Suc (length ip)) s
      in of_nat (digits_value ip) + of_nat (digits_value fp) / 10 ^ length fp)"

text \<open>
  \<open>Number(s)\<close> on a decimal literal: the double nearest to the value of the literal, and
  \<open>Infinity\<close> for a literal beyond the doubles. The handler applies \<open>Number\<close> only to strings
  that passed \<open>amount_re\<close>; on other strings this function is not the JavaScript one.
\<close>

definition Number :: "code_unit list \<Rightarrow> money" where
  "Number s = to_double (decimal_value s)"

section \<open>The store\<close>

text \<open>
  The tables of \<open>initDb\<close> (\<open>src/lib/db/index.ts\<close>), each a list of rows in rowid order.
  Timestamps are \<open>TEXT\<close> and are compared as strings, as SQLite's \<open>ORDER BY\<close> does.
  \<open>seq_accounts\<close> and \<open>seq_transactions\<close> are the rows of \<open>sqlite_sequence\<close> that
  \<open>AUTOINCREMENT\<close> maintains. An account type is one of the two values that the input
  schema of \<open>createAccount\<close> admits, \<open>z.enum(["checking", "savings"])\<close>.
\<close>

type_synonym timestamp = string

datatype account_type = Checking | Savings

record user =
  usr_id :: nat
  usr_email :: string

record account =
  acc_id :: nat
  acc_userId :: nat
  acc_accountNumber :: string
  acc_accountType :: account_type
  acc_balance :: money
  acc_status :: string
  acc_createdAt :: timestamp

record transaction =
  txn_id :: nat
  txn_accountId :: nat
  txn_type :: string
  txn_amount :: money
  txn_description :: string
  txn_status :: string
  txn_createdAt :: timestamp
  txn_processedAt :: "timestamp option"

record session =
  ses_id :: nat
  ses_userId :: nat
  ses_token :: string
  ses_expiresAt :: timestamp

record store =
  users :: "user list"
  accounts :: "account list"
  transactions :: "transaction list"
  sessions :: "session list"
  seq_accounts :: nat
  seq_transactions :: nat

text \<open>
  \<open>INTEGER PRIMARY KEY AUTOINCREMENT\<close>: one more than the largest rowid that has ever been
  in the table (the larger of the \<open>sqlite_sequence\<close> entry and the rowids present).
\<close>

definition next_rowid :: "nat \<Rightarrow> nat list \<Rightarrow> nat" where
  "next_rowid seq ids = Suc (fold max ids seq)"

text \<open>
  The two clocks a handler reads: \<open>new Date().toISOString()\<close> and the \<open>CURRENT_TIMESTAMP\<close>
  column default of SQLite.
\<close>

record clock =
  toISOString :: timestamp
  CURRENT_TIMESTAMP :: timestamp

text \<open>
  The failure kinds of the operations. The handlers throw \<open>TRPCError\<close>s; the kinds are told
  apart by code and message: a zod issue on \<open>amount\<close> is \<open>InvalidAmount\<close>, a zod issue on
  \<open>fundingSource\<close> is \<open>InvalidFundingSource\<close>, \<open>BAD_REQUEST\<close> "Amount must be at least $0.01"
  is \<open>AmountTooSmall\<close>, \<open>NOT_FOUND\<close> is \<open>AccountNotFound\<close>, \<open>BAD_REQUEST\<close> "Account is not
  active" is \<open>AccountNotActive\<close>, \<open>CONFLICT\<close> is \<open>DuplicateAccountType\<close>, and
  \<open>INTERNAL_SERVER_ERROR\<close> (also what tRPC makes of any other exception) is
  \<open>InternalError\<close>.
\<close>

datatype error =
    InvalidAmount
  | AmountTooSmall
  | AccountNotFound
  | AccountNotActive
  | InvalidFundingSource
  | DuplicateAccountType
  | InternalError

section \<open>Account creation\<close>

text \<open>\<open>buffer.readUIntBE(0, 5)\<close> on the bytes of \<open>crypto.randomBytes(5)\<close>.\<close>

definition readUIntBE :: "8 word list \<Rightarrow> nat" where
  "readUIntBE buffer = foldl (\<lambda>n b. 256 * n + unat b) 0 buffer"

text \<open>\<open>Number.prototype.toString\<close> on a non-negative integer below \<open>10^21\<close>.\<close>

definition digit_char :: "nat \<Rightarrow> char" where
  "digit_char d = ''0123456789'' ! d"

fun toString :: "nat \<Rightarrow> string" where
  "toString n = (if n < 10 then [digit_char n] else toString (n div 10) @ [digit_char (n mod 10)])"

declare toString.simps [simp del]

definition generateAccountNumber :: "8 word list \<Rightarrow> string" where
  "generateAccountNumber buffer =
     (let randomNum = readUIntBE buffer;
          accountNumber = (randomNum mod 9000000000) + 1000000000
      in toString accountNumber)"

text \<open>
  The loop \<open>while (!isUnique)\<close> of \<open>createAccount\<close>. The random source is the list of the
  buffers that successive calls of \<open>crypto.randomBytes(5)\<close> return; every iteration takes
  one. The source loop has no bound: \<open>None\<close> says that the loop is still running when the
  given draws are used up.
\<close>

fun uniqueAccountNumber :: "account list \<Rightarrow> 8 word list list \<Rightarrow> string option" where
  "uniqueAccountNumber rows [] = None"
| "uniqueAccountNumber rows (buffer # draws) =
     (let accountNumber = generateAccountNumber buffer;
          existing = find (\<lambda>a. acc_accountNumber a = accountNumber) rows
      in if existing = None then Some accountNumber else uniqueAccountNumber rows draws)"

definition insert_account :: "store \<Rightarrow> nat \<Rightarrow> string \<Rightarrow> account_type \<Rightarrow> timestamp \<Rightarrow> store" where
  "insert_account s userId accountNumber accountType now =
     (let rowid = next_rowid (seq_accounts s) (map acc_id (accounts s))
      in s\<lparr>accounts := accounts s @
            [\<lparr>acc_id = rowid, acc_userId = userId, acc_accountNumber = accountNumber,
              acc_accountType = accountType, acc_balance = 0, acc_status = ''active'',
              acc_createdAt = now\<rparr>],
           seq_accounts := rowid\<rparr>)"

text \<open>
  \<open>createAccount\<close>, for the authenticated user \<open>userId\<close> (\<open>ctx.user.id\<close>). The result is
  \<open>None\<close> when the number loop does not return within the draws.
\<close>

definition createAccount ::
  "store \<Rightarrow> nat \<Rightarrow> account_type \<Rightarrow> 8 word list list \<Rightarrow> clock \<Rightarrow> ((error + account) \<times> store) option" where
  "createAccount s userId accountType draws clk =
     (case find (\<lambda>a. acc_userId a = userId \<and> acc_accountType a = accountType) (accounts s) of
        Some existingAccount \<Rightarrow> Some (Inl DuplicateAccountType, s)
      | None \<Rightarrow>
          (case uniqueAccountNumber (accounts s) draws of
             None \<Rightarrow> None
           | Some accountNumber \<Rightarrow>
               (let s' = insert_account s userId accountNumber accountType (CURRENT_TIMESTAMP clk)
                in case find (\<lambda>a. acc_accountNumber a = accountNumber) (accounts s') of
                     None \<Rightarrow> Some (Inl InternalError, s')
                   | Some account \<Rightarrow> Some (Inr account, s'))))"

definition getAccounts :: "store \<Rightarrow> nat \<Rightarrow> account list" where
  "getAccounts s userId = filter (\<lambda>a. acc_userId a = userId) (accounts s)"

section \<open>Funding: \<open>src/server/routers/account.ts\<close>\<close>

text \<open>
  The raw \<open>amount\<close> of a request, as the \<open>z.preprocess\<close> of the input schema tells the cases
  apart: a string (given by its code units), a number (given by \<open>String(val)\<close>, its
  JavaScript rendering), or anything else. \<open>AmountString\<close> writes a string whose characters
  are all below 256. \<open>accountId\<close> is \<open>z.number()\<close>; a number that is no rowid finds no row,
  as an unused rowid does, so the model takes a natural number.
\<close>

datatype raw_amount = AmountText "code_unit list" | AmountNumber string | AmountOther

abbreviation AmountString :: "string \<Rightarrow> raw_amount" where
  "AmountString v \<equiv> AmountText (units v)"

record fundingSource =
  fs_type :: string
  fs_accountNumber :: string
  fs_routingNumber :: "string option"

record 'a fund_input =
  in_accountId :: nat
  in_amount :: 'a
  in_fundingSource :: fundingSource

text \<open>
  The schema of \<open>amount\<close>: the preprocessing step, \<open>z.string()\<close>, the \<open>refine\<close> on the format
  and the \<open>transform\<close> \<open>Number(Number(s).toFixed(2))\<close> (which zod applies only when the
  refinement passed).
\<close>

definition preprocess_amount :: "raw_amount \<Rightarrow> code_unit list option" where
  "preprocess_amount val =
     (case val of
        AmountText v \<Rightarrow> Some (trim v)
      | AmountNumber str \<Rightarrow> Some (units str)
      | AmountOther \<Rightarrow> None)"

definition parse_amount :: "raw_amount \<Rightarrow> error + money" where
  "parse_amount val =
     (case preprocess_amount val of
        None \<Rightarrow> Inl InvalidAmount
      | Some s \<Rightarrow> if test amount_re s then Inr (toFixed2 (Number s)) else Inl InvalidAmount)"

text \<open>
  The schema of \<open>fundingSource\<close> (\<open>type\<close> is one of \<open>card\<close> and \<open>bank\<close>) and the \<open>refine\<close> of
  the whole input: a bank source carries a routing number of nine digits.
\<close>

definition check_fundingSource :: "fundingSource \<Rightarrow> bool" where
  "check_fundingSource fs \<longleftrightarrow>
     (fs_type fs = ''card'' \<or> fs_type fs = ''bank'') \<and>
     (if fs_type fs = ''bank''
      then (case fs_routingNumber fs of None \<Rightarrow> False | Some r \<Rightarrow> test routing_re (units r))
      else True)"

text \<open>
  Input validation, which tRPC runs before the handler. zod reports every issue at once;
  the model reports the kind of the first one, in the order of the schema.
\<close>

record validated =
  v_accountId :: nat
  v_amount :: money
  v_fundingSource :: fundingSource

definition fund_schema :: "raw_amount fund_input \<Rightarrow> error + validated" where
  "fund_schema inp =
     (case parse_amount (in_amount inp) of
        Inl e \<Rightarrow> Inl e
      | Inr amount \<Rightarrow>
          if check_fundingSource (in_fundingSource inp)
          then Inr \<lparr>v_accountId = in_accountId inp, v_amount = amount,
                    v_fundingSource = in_fundingSource inp\<rparr>
          else Inl InvalidFundingSource)"

text \<open>
  \<open>db.select().from(accounts).where(and(eq(accounts.id, accountId), eq(accounts.userId,
  userId))).get()\<close>: the first matching row, if any.
\<close>

definition select_account :: "store \<Rightarrow> nat \<Rightarrow> nat \<Rightarrow> account option" where
  "select_account s accountId userId =
     find (\<lambda>a. acc_id a = accountId \<and> acc_userId a = userId) (accounts s)"

text \<open>\<open>INSERT INTO transactions (\<dots>) VALUES (\<dots>)\<close> with type \<open>deposit\<close> and status \<open>completed\<close>.\<close>

definition insert_transaction ::
  "store \<Rightarrow> nat \<Rightarrow> money \<Rightarrow> string \<Rightarrow> timestamp \<Rightarrow> timestamp option \<Rightarrow> store" where
  "insert_transaction s accountId amount description createdAt processedAt =
     (let rowid = next_rowid (seq_transactions s) (map txn_id (transactions s))
      in s\<lparr>transactions := transactions s @
            [\<lparr>txn_id = rowid, txn_accountId = accountId, txn_type = ''deposit'',
              txn_amount = amount, txn_description = description, txn_status = ''completed'',
              txn_createdAt = createdAt, txn_processedAt = processedAt\<rparr>],
           seq_transactions := rowid\<rparr>)"

text \<open>\<open>UPDATE accounts SET balance = round(balance + ?, 2) WHERE id = ?\<close>\<close>

definition add_to_balance :: "store \<Rightarrow> money \<Rightarrow> nat \<Rightarrow> store" where
  "add_to_balance s amount accountId =
     s\<lparr>accounts :=
         map (\<lambda>a. if acc_id a = accountId
                  then a\<lparr>acc_balance := sql_round2 (double_add (acc_balance a) amount)\<rparr> else a)
             (accounts s)\<rparr>"

text \<open>
  \<open>SELECT * FROM transactions WHERE account_id = ? ORDER BY created_at DESC LIMIT 1\<close>: a row
  of the account with the greatest \<open>created_at\<close>. SQL does not say which one when several
  rows share it; the model takes the first of them in rowid order.
\<close>

fun latest :: "transaction list \<Rightarrow> transaction option" where
  "latest [] = None"
| "latest (t # ts) =
     (case latest ts of
        None \<Rightarrow> Some t
      | Some u \<Rightarrow> if txn_createdAt t < txn_createdAt u then Some u else Some t)"

definition latest_transaction :: "store \<Rightarrow> nat \<Rightarrow> transaction option" where
  "latest_transaction s accountId =
     latest (filter (\<lambda>t. txn_accountId t = accountId) (transactions s))"

text \<open>
  Where the persistence layer fails, if it does: at one of the four statements of the
  funding step.
\<close>

datatype fault = NoFault | FailInsert | FailUpdate | FailSelectTransaction | FailSelectBalance

record fund_result =
  res_transaction :: "transaction option"
  res_newBalance :: money

text \<open>
  The callback given to \<open>sqlite.transaction\<close>. A statement that fails throws; reading
  \<open>balanceRow.balance\<close> of a missing row throws as well.
\<close>

definition txn ::
  "fault \<Rightarrow> clock \<Rightarrow> validated \<Rightarrow> store \<Rightarrow> error + (fund_result \<times> store)" where
  "txn f clk input s =
     (if f = FailInsert then Inl InternalError
      else
        let nowIso = toISOString clk;
            s1 = insert_transaction s (v_accountId input) (v_amount input)
                   (''Funding from '' @ fs_type (v_fundingSource input)) nowIso (Some nowIso)
        in if f = FailUpdate then Inl InternalError
           else
             let s2 = add_to_balance s1 (v_amount input) (v_accountId input)
             in if f = FailSelectTransaction then Inl InternalError
                else
                  let transactionRow = latest_transaction s2 (v_accountId input)
                  in if f = FailSelectBalance then Inl InternalError
                     else
                       (case find (\<lambda>a. acc_id a = v_accountId input) (accounts s2) of
                          None \<Rightarrow> Inl InternalError
                        | Some balanceRow \<Rightarrow>
                            Inr (\<lparr>res_transaction = transactionRow,
                                  res_newBalance = toFixed2 (acc_balance balanceRow)\<rparr>, s2)))"

text \<open>
  \<open>sqlite.transaction(fn)()\<close> of better-sqlite3: \<open>BEGIN\<close>, the callback, \<open>COMMIT\<close>; when the
  callback throws, \<open>ROLLBACK\<close> and the exception is thrown on.
\<close>

definition sqlite_transaction ::
  "(store \<Rightarrow> error + ('a \<times> store)) \<Rightarrow> store \<Rightarrow> (error + 'a) \<times> store" where
  "sqlite_transaction fn s =
     (case fn s of
        Inl e \<Rightarrow> (Inl e, s)
      | Inr (r, s') \<Rightarrow> (Inr r, s'))"

text \<open>
  The handler runs in two pieces, with an \<open>await\<close> between them at which other requests
  may run: \<open>fund_begin\<close> up to the \<open>SELECT\<close> of the account, \<open>fund_finish\<close> from the check of
  its result to the end. The literal \<open>0.01\<close> of the check \<open>amount < 0.01\<close> is the double
  nearest to one hundredth.
\<close>

record pending =
  p_input :: validated
  p_account :: "account option"

definition fund_begin :: "store \<Rightarrow> nat \<Rightarrow> raw_amount fund_input \<Rightarrow> error + pending" where
  "fund_begin s userId inp =
     (case fund_schema inp of
        Inl e \<Rightarrow> Inl e
      | Inr input \<Rightarrow>
          if v_amount input < to_double (1 / 100) then Inl AmountTooSmall
          else Inr \<lparr>p_input = input,
                    p_account = select_account s (v_accountId input) userId\<rparr>)"

definition fund_finish :: "fault \<Rightarrow> clock \<Rightarrow> pending \<Rightarrow> store \<Rightarrow> (error + fund_result) \<times> store" where
  "fund_finish f clk p s =
     (case p_account p of
        None \<Rightarrow> (Inl AccountNotFound, s)
      | Some account \<Rightarrow>
          if acc_status account \<noteq> ''active'' then (Inl AccountNotActive, s)
          else sqlite_transaction (txn f clk (p_input p)) s)"

definition fundAccount ::
  "fault \<Rightarrow> clock \<Rightarrow> store \<Rightarrow> nat \<Rightarrow> raw_amount fund_input \<Rightarrow> (error + fund_result) \<times> store" where
  "fundAccount f clk s userId inp =
     (case fund_begin s userId inp of
        Inl e \<Rightarrow> (Inl e, s)
      | Inr p \<Rightarrow> fund_finish f clk p s)"

section \<open>Transaction history\<close>

text \<open>
  \<open>getTransactions\<close>: the guard, the rows of the account in rowid order, each paired with
  \<open>accountDetails?.accountType\<close> of the row that \<open>accounts.id = transaction.accountId\<close> finds.
\<close>

definition getTransactions ::
  "store \<Rightarrow> nat \<Rightarrow> nat \<Rightarrow> error + (transaction \<times> account_type option) list" where
  "getTransactions s userId accountId =
     (case select_account s accountId userId of
        None \<Rightarrow> Inl AccountNotFound
      | Some account \<Rightarrow>
          Inr (map (\<lambda>t. (t, map_option acc_accountType
                              (find (\<lambda>a. acc_id a = txn_accountId t) (accounts s))))
                   (filter (\<lambda>t. txn_accountId t = accountId) (transactions s))))"

section \<open>Funding: the handler of \<open>src/unnamed/part_000\<close>\<close>

text \<open>
  The other copy of the router differs in \<open>fundAccount\<close> only. Its \<open>amount\<close> is
  \<open>z.number().positive()\<close>: a JavaScript number, here the rational that a finite number
  denotes or one of the special values; \<open>NotANumber\<close> stands for an input that is no number
  at all.
\<close>

datatype js_number = Finite rat | PosInfinity | NegInfinity | NaN | NotANumber

definition z_number_positive :: "js_number \<Rightarrow> bool" where
  "z_number_positive v = (case v of Finite r \<Rightarrow> 0 < r | PosInfinity \<Rightarrow> True | _ \<Rightarrow> False)"

text \<open>
  \<open>parseFloat(input.amount.toString())\<close> gives the number back; the handler rejects what is
  not finite and rounds with \<open>toFixed(2)\<close>.
\<close>

definition normalize_part_000 :: "js_number \<Rightarrow> error + money" where
  "normalize_part_000 v = (case v of Finite rawAmount \<Rightarrow> Inr (toFixed2 rawAmount) | _ \<Rightarrow> Inl InvalidAmount)"

definition fund_begin_part_000 :: "store \<Rightarrow> nat \<Rightarrow> js_number fund_input \<Rightarrow> error + pending" where
  "fund_begin_part_000 s userId inp =
     (if \<not> z_number_positive (in_amount inp) then Inl InvalidAmount
      else if \<not> check_fundingSource (in_fundingSource inp) then Inl InvalidFundingSource
      else
        (case normalize_part_000 (in_amount inp) of
           Inl e \<Rightarrow> Inl e
         | Inr amount \<Rightarrow>
             if amount < to_double (1 / 100) then Inl AmountTooSmall
             else Inr \<lparr>p_input = \<lparr>v_accountId = in_accountId inp, v_amount = amount,
                                  v_fundingSource = in_fundingSource inp\<rparr>,
                       p_account = select_account s (in_accountId inp) userId\<rparr>))"

text \<open>
  The rest of the handler is three awaited statements: the \<open>INSERT\<close> of the ledger entry
  (\<open>created_at\<close> is left to the column default \<open>CURRENT_TIMESTAMP\<close> of \<open>initDb\<close>), the
  \<open>UPDATE\<close> of the balance to a value computed from the account row read at the start,
  and the \<open>SELECT\<close> of the latest entry.
\<close>

definition fund_insert_part_000 ::
  "fault \<Rightarrow> clock \<Rightarrow> pending \<Rightarrow> store \<Rightarrow> (error + validated \<times> account) \<times> store" where
  "fund_insert_part_000 f clk p s =
     (case p_account p of
        None \<Rightarrow> (Inl AccountNotFound, s)
      | Some account \<Rightarrow>
          if acc_status account \<noteq> ''active'' then (Inl AccountNotActive, s)
          else if f = FailInsert then (Inl InternalError, s)
          else
            (Inr (p_input p, account),
             insert_transaction s (v_accountId (p_input p)) (v_amount (p_input p))
               (''Funding from '' @ fs_type (v_fundingSource (p_input p)))
               (CURRENT_TIMESTAMP clk) (Some (toISOString clk))))"

text \<open>\<open>db.update(accounts).set({ balance: newBalance }).where(eq(accounts.id, accountId))\<close>\<close>

definition set_balance :: "store \<Rightarrow> money \<Rightarrow> nat \<Rightarrow> store" where
  "set_balance s newBalance accountId =
     s\<lparr>accounts :=
         map (\<lambda>a. if acc_id a = accountId then a\<lparr>acc_balance := newBalance\<rparr> else a)
             (accounts s)\<rparr>"

definition fund_update_part_000 ::
  "fault \<Rightarrow> validated \<times> account \<Rightarrow> store \<Rightarrow> (error + validated \<times> money) \<times> store" where
  "fund_update_part_000 f ia s =
     (case ia of (input, account) \<Rightarrow>
        let currentBalance = toFixed2 (acc_balance account);
            newBalance = toFixed2 (double_add currentBalance (v_amount input))
        in if f = FailUpdate then (Inl InternalError, s)
           else (Inr (input, newBalance), set_balance s newBalance (v_accountId input)))"

definition fund_fetch_part_000 ::
  "fault \<Rightarrow> validated \<times> money \<Rightarrow> store \<Rightarrow> (error + fund_result) \<times> store" where
  "fund_fetch_part_000 f ib s =
     (case ib of (input, newBalance) \<Rightarrow>
        if f = FailSelectTransaction then (Inl InternalError, s)
        else (Inr \<lparr>res_transaction = latest_transaction s (v_accountId input),
                   res_newBalance = newBalance\<rparr>, s))"

definition fundAccount_part_000 ::
  "fault \<Rightarrow> clock \<Rightarrow> store \<Rightarrow> nat \<Rightarrow> js_number fund_input \<Rightarrow> (error + fund_result) \<times> store" where
  "fundAccount_part_000 f clk s userId inp =
     (case fund_begin_part_000 s userId inp of
        Inl e \<Rightarrow> (Inl e, s)
      | Inr p \<Rightarrow>
          (case fund_insert_part_000 f clk p s of
             (Inl e, s1) \<Rightarrow> (Inl e, s1)
           | (Inr ia, s1) \<Rightarrow>
               (case fund_update_part_000 f ia s1 of
                  (Inl e, s2) \<Rightarrow> (Inl e, s2)
                | (Inr ib, s2) \<Rightarrow> fund_fetch_part_000 f ib s2)))"

section \<open>Concurrent requests\<close>

text \<open>
  Node runs one handler at a time and switches between requests at an \<open>await\<close> only. A
  request is therefore a sequence of atomic pieces; a schedule names, step by step, the
  request that runs its next piece and the clock readings of that piece.
\<close>

datatype call =
    Start nat "raw_amount fund_input"
  | Selected pending
  | Returned "error + fund_result"

fun step :: "clock \<Rightarrow> store \<Rightarrow> call \<Rightarrow> store \<times> call" where
  "step clk s (Start userId inp) =
     (case fund_begin s userId inp of
        Inl e \<Rightarrow> (s, Returned (Inl e))
      | Inr p \<Rightarrow> (s, Selected p))"
| "step clk s (Selected p) =
     (case fund_finish NoFault clk p s of (r, s') \<Rightarrow> (s', Returned r))"
| "step clk s (Returned r) = (s, Returned r)"

datatype call_part_000 =
    Start_000 nat "js_number fund_input"
  | Selected_000 pending
  | Inserted_000 "validated \<times> account"
  | Updated_000 "validated \<times> money"
  | Returned_000 "error + fund_result"

fun step_part_000 :: "clock \<Rightarrow> store \<Rightarrow> call_part_000 \<Rightarrow> store \<times> call_part_000" where
  "step_part_000 clk s (Start_000 userId inp) =
     (case fund_begin_part_000 s userId inp of
        Inl e \<Rightarrow> (s, Returned_000 (Inl e))
      | Inr p \<Rightarrow> (s, Selected_000 p))"
| "step_part_000 clk s (Selected_000 p) =
     (case fund_insert_part_000 NoFault clk p s of
        (Inl e, s') \<Rightarrow> (s', Returned_000 (Inl e))
      | (Inr ia, s') \<Rightarrow> (s', Inserted_000 ia))"
| "step_part_000 clk s (Inserted_000 ia) =
     (case fund_update_part_000 NoFault ia s of
        (Inl e, s') \<Rightarrow> (s', Returned_000 (Inl e))
      | (Inr ib, s') \<Rightarrow> (s', Updated_000 ib))"
| "step_part_000 clk s (Updated_000 ib) =
     (case fund_fetch_part_000 NoFault ib s of (r, s') \<Rightarrow> (s', Returned_000 r))"
| "step_part_000 clk s (Returned_000 r) = (s, Returned_000 r)"

fun run :: "(clock \<Rightarrow> store \<Rightarrow> 'c \<Rightarrow> store \<times> 'c) \<Rightarrow> (nat \<times> clock) list \<Rightarrow> store \<times> 'c list \<Rightarrow> store \<times> 'c list" where
  "run stp [] cfg = cfg"
| "run stp ((i, clk) # sched) (s, cs) =
     (if i < length cs
      then (case stp clk s (cs ! i) of (s', c') \<Rightarrow> run stp sched (s', cs[i := c']))
      else run stp sched (s, cs))"

section \<open>Sequences of core operations\<close>

datatype op =
    CreateAccount nat account_type "8 word list list" clock
  | ListAccounts nat
  | FundAccount fault clock nat "raw_amount fund_input"
  | ListTransactions nat nat

text \<open>The store after an operation; \<open>None\<close> when \<open>createAccount\<close> does not return.\<close>

fun exec :: "op \<Rightarrow> store \<Rightarrow> store option" where
  "exec (CreateAccount userId accountType draws clk) s =
     map_option snd (createAccount s userId accountType draws clk)"
| "exec (ListAccounts userId) s = Some s"
| "exec (FundAccount f clk userId inp) s = Some (snd (fundAccount f clk s userId inp))"
| "exec (ListTransactions userId accountId) s = Some s"

fun exec_all :: "op list \<Rightarrow> store \<Rightarrow> store option" where
  "exec_all [] s = Some s"
| "exec_all (x # xs) s = (case exec x s of None \<Rightarrow> None | Some s' \<Rightarrow> exec_all xs s')"

fun is_fund :: "op \<Rightarrow> bool" where
  "is_fund (FundAccount f clk userId inp) = True"
| "is_fund _ = False"

text \<open>The stores that sequences of core operations reach from one without accounts.\<close>

inductive reachable :: "store \<Rightarrow> bool" where
  reachable_init: "accounts s = [] \<Longrightarrow> transactions s = [] \<Longrightarrow> reachable s"
| reachable_exec: "reachable s \<Longrightarrow> exec x s = Some s' \<Longrightarrow> reachable s'"

text \<open>
  The sum of the completed ledger entries of an account in exact two-decimal arithmetic:
  every entry counts with the two-decimal value that its amount stands for, and the sum
  is a sum of rationals. The balance invariant compares the balance with it at two
  decimals.
\<close>

definition ledger_sum :: "store \<Rightarrow> nat \<Rightarrow> rat" where
  "ledger_sum s accountId =
     sum_list (map (\<lambda>t. decimal2 (txn_amount t))
       (filter (\<lambda>t. txn_accountId t = accountId \<and> txn_status t = ''completed'') (transactions s)))"

definition balance_invariant :: "store \<Rightarrow> bool" where
  "balance_invariant s \<longleftrightarrow>
     list_all (\<lambda>a. decimal2 (acc_balance a) = ledger_sum s (acc_id a)) (accounts s)"

section \<open>The language of a regular expression and the grammar of amounts\<close>

text \<open>The words a regular expression denotes; \<open>test\<close> decides membership.\<close>

definition conc :: "code_unit list set \<Rightarrow> code_unit list set \<Rightarrow> code_unit list set" where
  "conc A B = {u @ v |u v. u \<in> A \<and> v \<in> B}"

inductive_set star :: "code_unit list set \<Rightarrow> code_unit list set" for A :: "code_unit list set" where
  star_empty: "[] \<in> star A"
| star_app: "u \<in> A \<Longrightarrow> v \<in> star A \<Longrightarrow> u @ v \<in> star A"

fun lang :: "rexp \<Rightarrow> code_unit list set" where
  "lang Zero = {}"
| "lang One = {[]}"
| "lang (Cls cs) = {[c] |c. c \<in> set (units cs)}"
| "lang (Alt r s) = lang r \<union> lang s"
| "lang (Seq r s) = conc (lang r) (lang s)"
| "lang (Star r) = star (lang r)"

text \<open>A decimal digit, as a character of a string and as a code unit of a text.\<close>

definition is_digit :: "char \<Rightarrow> bool" where
  "is_digit c \<longleftrightarrow> c \<in> set ''0123456789''"

definition decimal_digit :: "code_unit \<Rightarrow> bool" where
  "decimal_digit c \<longleftrightarrow> c \<in> set (units ''0123456789'')"

text \<open>
  The accepted textual form of an amount, in the words of the specification: zero or a
  non-zero-leading integer part, optionally followed by a point and one or two fractional
  digits.
\<close>

definition spec_integer_part :: "code_unit list \<Rightarrow> bool" where
  "spec_integer_part ip \<longleftrightarrow>
     ip = units ''0'' \<or>
     (\<exists>c ds. ip = c # ds \<and> decimal_digit c \<and> c \<noteq> of_char CHR ''0'' \<and> list_all decimal_digit ds)"

definition spec_amount_grammar :: "code_unit list \<Rightarrow> bool" where
  "spec_amount_grammar s \<longleftrightarrow>
     (\<exists>ip. spec_integer_part ip \<and>
        (s = ip \<or> (\<exists>fp. s = ip @ units ''.'' @ fp \<and> list_all decimal_digit fp
                       \<and> 1 \<le> length fp \<and> length fp \<le> 2)))"

section \<open>The frame of a funding call\<close>

text \<open>
  What a funding call on account \<open>X\<close> may change between the stores \<open>s\<close> and \<open>s'\<close>: one row
  for \<open>X\<close> is appended to \<open>transactions\<close> (with the table's rowid counter), and rows of
  \<open>accounts\<close> with id \<open>X\<close> may differ in their balance. Everything else is the same.
\<close>

definition funded_only :: "store \<Rightarrow> store \<Rightarrow> nat \<Rightarrow> bool" where
  "funded_only s s' X \<longleftrightarrow>
     (\<exists>t. transactions s' = transactions s @ [t] \<and> txn_accountId t = X)
     \<and> users s' = users s
     \<and> sessions s' = sessions s
     \<and> seq_accounts s' = seq_accounts s
     \<and> list_all2 (\<lambda>a a'. a' = a\<lparr>acc_balance := acc_balance a'\<rparr> \<and> (acc_id a = X \<or> a' = a))
          (accounts s) (accounts s')"

text \<open>
  For the argument that concurrent calls of the handler of \<open>account.ts\<close> lose no update:
  the balances and the ledger entries of account \<open>X\<close>, the calls that have returned
  successfully, and the calls that fund \<open>X\<close> with the normalized amount \<open>A\<close>.
\<close>

definition balances_of :: "store \<Rightarrow> nat \<Rightarrow> money list" where
  "balances_of s X = map acc_balance (filter (\<lambda>a. acc_id a = X) (accounts s))"

definition entries_of :: "store \<Rightarrow> nat \<Rightarrow> transaction list" where
  "entries_of s X = filter (\<lambda>t. txn_accountId t = X) (transactions s)"

fun is_success :: "call \<Rightarrow> bool" where
  "is_success (Returned (Inr r)) = True"
| "is_success c = False"

fun call_for :: "nat \<Rightarrow> money \<Rightarrow> call \<Rightarrow> bool" where
  "call_for X A (Start userId inp) = (in_accountId inp = X \<and> parse_amount (in_amount inp) = Inr A)"
| "call_for X A (Selected p) = (v_accountId (p_input p) = X \<and> v_amount (p_input p) = A)"
| "call_for X A (Returned r) = True"

section \<open>Example data\<close>

definition demo_clock :: clock where
  "demo_clock = \<lparr>toISOString = ''2026-11-02T09:30:00.000Z'', CURRENT_TIMESTAMP = ''2026-11-02 09:30:00''\<rparr>"

definition card :: fundingSource where
  "card = \<lparr>fs_type = ''card'', fs_accountNumber = ''4111111111111111'', fs_routingNumber = None\<rparr>"

definition demo_row :: transaction where
  "demo_row = \<lparr>txn_id = 1, txn_accountId = 1, txn_type = ''deposit'', txn_amount = 5,
     txn_description = ''Funding from card'', txn_status = ''completed'',
     txn_createdAt = ''2026-11-02T09:30:00.000Z'',
     txn_processedAt = Some ''2026-11-02T09:30:00.000Z''\<rparr>"

definition demo_account :: account where
  "demo_account = \<lparr>acc_id = 1, acc_userId = 2, acc_accountNumber = ''1000000001'',
     acc_accountType = Checking, acc_balance = 5, acc_status = ''active'',
     acc_createdAt = ''2026-11-01 08:00:00''\<rparr>"

text \<open>A store with one account, of user 2, funded once with 5.00.\<close>

definition demo_store :: store where
  "demo_store = \<lparr>users = [\<lparr>usr_id = 1, usr_email = ''a@example.com''\<rparr>,
                          \<lparr>usr_id = 2, usr_email = ''b@example.com''\<rparr>],
     accounts = [demo_account], transactions = [demo_row], sessions = [],
     seq_accounts = 1, seq_transactions = 1\<rparr>"

text \<open>Two draws of \<open>crypto.randomBytes(5)\<close>: one gives the number of \<open>demo_account\<close>, one a new number.\<close>

definition colliding_draw :: "8 word list" where
  "colliding_draw = [0, 0, 0, 0, 1]"

definition fresh_draw :: "8 word list" where
  "fresh_draw = [0, 0, 0, 0, 2]"

definition empty_store :: store where
  "empty_store = \<lparr>users = [], accounts = [], transactions = [], sessions = [],
     seq_accounts = 0, seq_transactions = 0\<rparr>"

text \<open>
  The store after user 1 opened a checking account, and after that account was funded
  once with 2.50.
\<close>

definition opened_account :: account where
  "opened_account = \<lparr>acc_id = 1, acc_userId = 1, acc_accountNumber = ''1000000002'',
     acc_accountType = Checking, acc_balance = 0, acc_status = ''active'',
     acc_createdAt = ''2026-11-02 09:30:00''\<rparr>"

definition opened_store :: store where
  "opened_store = \<lparr>users = [], accounts = [opened_account], transactions = [], sessions = [],
     seq_accounts = 1, seq_transactions = 0\<rparr>"

definition funded_row :: transaction where
  "funded_row = \<lparr>txn_id = 1, txn_accountId = 1, txn_type = ''deposit'', txn_amount = 5 / 2,
     txn_description = ''Funding from card'', txn_status = ''completed'',
     txn_createdAt = ''2026-11-02T09:30:00.000Z'',
     txn_processedAt = Some ''2026-11-02T09:30:00.000Z''\<rparr>"

definition funded_store :: store where
  "funded_store = \<lparr>users = [], accounts = [opened_account\<lparr>acc_balance := 5 / 2\<rparr>],
     transactions = [funded_row], sessions = [], seq_accounts = 1, seq_transactions = 1\<rparr>"

text \<open>
  Clock readings around \<open>demo_clock\<close>: one second earlier, and 400 ms later within the
  same second.
\<close>

definition earlier_clock :: clock where
  "earlier_clock = \<lparr>toISOString = ''2026-11-02T09:29:59.000Z'', CURRENT_TIMESTAMP = ''2026-11-02 09:29:59''\<rparr>"

definition later_clock :: clock where
  "later_clock = \<lparr>toISOString = ''2026-11-02T09:30:00.400Z'', CURRENT_TIMESTAMP = ''2026-11-02 09:30:00''\<rparr>"

text \<open>Requests of user 1 for account 1: one unit of currency, as text and as a number.\<close>

definition one_text :: "raw_amount fund_input" where
  "one_text = \<lparr>in_accountId = 1, in_amount = AmountString ''1.00'', in_fundingSource = card\<rparr>"

definition one_number :: "js_number fund_input" where
  "one_number = \<lparr>in_accountId = 1, in_amount = Finite 1, in_fundingSource = card\<rparr>"

text \<open>
  The rows that the handler of \<open>part_000\<close> inserts for two such requests within one second,
  and the schedule of two requests that take turns at every \<open>await\<close>, as the calls of one
  tRPC batch do.
\<close>

definition first_row_000 :: transaction where
  "first_row_000 = \<lparr>txn_id = 1, txn_accountId = 1, txn_type = ''deposit'', txn_amount = 1,
     txn_description = ''Funding from card'', txn_status = ''completed'',
     txn_createdAt = ''2026-11-02 09:30:00'',
     txn_processedAt = Some ''2026-11-02T09:30:00.000Z''\<rparr>"

definition second_row_000 :: transaction where
  "second_row_000 = \<lparr>txn_id = 2, txn_accountId = 1, txn_type = ''deposit'', txn_amount = 1,
     txn_description = ''Funding from card'', txn_status = ''completed'',
     txn_createdAt = ''2026-11-02 09:30:00'',
     txn_processedAt = Some ''2026-11-02T09:30:00.400Z''\<rparr>"

definition racing_schedule :: "(nat \<times> clock) list" where
  "racing_schedule =
     [(0, demo_clock), (1, later_clock), (0, demo_clock), (1, later_clock),
      (0, demo_clock), (1, later_clock), (0, demo_clock), (1, later_clock)]"

text \<open>
  Requests of user 1 for account 1 with the amounts \<open>45035996273704.96\<close> (\<open>2\<^sup>5\<^sup>2\<close> cents) and
  \<open>0.01\<close>, the rows that the handler of \<open>account.ts\<close> inserts for such requests at
  \<open>demo_clock\<close>, and the store in which account 1 has a given balance and given rows.
\<close>

definition large_text :: "raw_amount fund_input" where
  "large_text = \<lparr>in_accountId = 1, in_amount = AmountString ''45035996273704.96'',
     in_fundingSource = card\<rparr>"

definition cent_text :: "raw_amount fund_input" where
  "cent_text = \<lparr>in_accountId = 1, in_amount = AmountString ''0.01'', in_fundingSource = card\<rparr>"

definition drift_row :: "nat \<Rightarrow> money \<Rightarrow> transaction" where
  "drift_row i amount = \<lparr>txn_id = i, txn_accountId = 1, txn_type = ''deposit'', txn_amount = amount,
     txn_description = ''Funding from card'', txn_status = ''completed'',
     txn_createdAt = ''2026-11-02T09:30:00.000Z'',
     txn_processedAt = Some ''2026-11-02T09:30:00.000Z''\<rparr>"

definition drift_store :: "money \<Rightarrow> transaction list \<Rightarrow> store" where
  "drift_store balance rows = \<lparr>users = [], accounts = [opened_account\<lparr>acc_balance := balance\<rparr>],
     transactions = rows, sessions = [], seq_accounts = 1, seq_transactions = length rows\<rparr>"

text \<open>
  The sequence of core operations that opens the account and funds it with the large
  amount and twice with one cent, the store it leaves, and the store after one more
  funding with one cent. The doubles in them are \<open>45035996273704.9609375\<close> (the large
  amount), \<open>45035996273704.9765625\<close> (the balance) and the double nearest to \<open>0.01\<close>.
\<close>

definition drift_ops :: "op list" where
  "drift_ops =
     [CreateAccount 1 Checking [fresh_draw] demo_clock,
      FundAccount NoFault demo_clock 1 large_text,
      FundAccount NoFault demo_clock 1 cent_text,
      FundAccount NoFault demo_clock 1 cent_text]"

definition settled_store :: store where
  "settled_store =
     drift_store (5764607523034237 / 128)
       [drift_row 1 (5764607523034235 / 128),
        drift_row 2 (5764607523034235 / 576460752303423488),
        drift_row 3 (5764607523034235 / 576460752303423488)]"

definition drifted_store :: store where
  "drifted_store =
     drift_store (5764607523034237 / 128)
       [drift_row 1 (5764607523034235 / 128),
        drift_row 2 (5764607523034235 / 576460752303423488),
        drift_row 3 (5764607523034235 / 576460752303423488),
        drift_row 4 (5764607523034235 / 576460752303423488)]"

text \<open>
  What sequences of core operations maintain: no ledger amount is negative and every
  ledger entry belongs to an account of the store; and, while the ledgers stay small,
  every balance is the double of the sum of its ledger. \<open>ledger_below M\<close> says that the
  ledger of every account sums to less than \<open>M\<close>.
\<close>

definition ledger_wellformed :: "store \<Rightarrow> bool" where
  "ledger_wellformed s \<longleftrightarrow>
     list_all (\<lambda>t. 0 \<le> txn_amount t \<and> txn_accountId t \<in> acc_id ` set (accounts s))
       (transactions s)"

definition balances_exact :: "store \<Rightarrow> bool" where
  "balances_exact s \<longleftrightarrow>
     list_all (\<lambda>a. acc_balance a = to_double (ledger_sum s (acc_id a))) (accounts s)"

definition ledger_below :: "rat \<Rightarrow> store \<Rightarrow> bool" where
  "ledger_below M s \<longleftrightarrow> list_all (\<lambda>a. ledger_sum s (acc_id a) < M) (accounts s)"

section \<open>Rounding to two decimals\<close>

lemma two_decimals_iff: "two_decimals x \<longleftrightarrow> (\<exists>k::int. x = of_int k / 100)"
proof
  assume "two_decimals x"
  then have e: "of_int \<lfloor>x * 100\<rfloor> = x * 100" by (simp only: two_decimals_def)
  have "x = x * 100 / 100" by simp
  then have "x = of_int \<lfloor>x * 100\<rfloor> / 100" unfolding e .
  then show "\<exists>k::int. x = of_int k / 100" ..
next
  assume "\<exists>k::int. x = of_int k / 100"
  then obtain k :: int where "x = of_int k / 100" ..
  then have "x * 100 = of_int k" by simp
  then show "two_decimals x" by (simp only: two_decimals_def floor_of_int)
qed

lemma floor_half: "\<lfloor>(of_int k :: rat) + 1 / 2\<rfloor> = k"
  by linarith

lemma decimal2_cents: "decimal2 (of_int k / 100) = of_int k / 100"
proof (cases "k < 0")
  case True
  then have neg: "(of_int k / 100 :: rat) < 0" by (simp add: divide_less_0_iff)
  have "(- (of_int k / 100)) * 100 = (of_int (- k) :: rat)" by simp
  then have "\<lfloor>(- (of_int k / 100 :: rat)) * 100 + 1 / 2\<rfloor> = - k"
    by (simp only: floor_half)
  then have "decimal2 (of_int k / 100) = - (of_int (- k) / 100)"
    using neg by (simp only: decimal2_def if_True)
  then show ?thesis by simp
next
  case False
  then have nonneg: "\<not> (of_int k / 100 :: rat) < 0" by (simp add: divide_less_0_iff)
  have "(of_int k / 100) * 100 = (of_int k :: rat)" by simp
  then have "\<lfloor>(of_int k / 100 :: rat) * 100 + 1 / 2\<rfloor> = k"
    by (simp only: floor_half)
  then show ?thesis
    using nonneg by (simp only: decimal2_def if_False)
qed

lemma decimal2_id: "two_decimals x \<Longrightarrow> decimal2 x = x"
  unfolding two_decimals_iff using decimal2_cents by blast

lemma decimal2_two_decimals: "two_decimals (decimal2 x)"
proof (cases "x < 0")
  case True
  then have "decimal2 x = of_int (- \<lfloor>(- x) * 100 + 1 / 2\<rfloor>) / 100"
    by (simp add: decimal2_def)
  then show ?thesis unfolding two_decimals_iff ..
next
  case False
  then have "decimal2 x = of_int \<lfloor>x * 100 + 1 / 2\<rfloor> / 100"
    by (simp add: decimal2_def)
  then show ?thesis unfolding two_decimals_iff ..
qed

lemma round_half_up_near: "\<bar>of_int \<lfloor>y * 100 + 1 / 2\<rfloor> / 100 - y\<bar> \<le> 1 / 200" for y :: rat
proof -
  define n where "n = \<lfloor>y * 100 + 1 / 2\<rfloor>"
  have "of_int n \<le> y * 100 + 1 / 2" and "y * 100 + 1 / 2 < of_int n + 1"
    unfolding n_def by linarith+
  then have "of_int n / 100 - y \<le> 1 / 200 \<and> - (of_int n / 100 - y) \<le> 1 / 200"
    by linarith
  then have "\<bar>of_int n / 100 - y\<bar> \<le> 1 / 200"
    unfolding abs_le_iff .
  then show ?thesis unfolding n_def .
qed

lemma decimal2_nearest: "\<bar>decimal2 x - x\<bar> \<le> 1 / 200"
proof (cases "x < 0")
  case True
  then have "decimal2 x - x = - (of_int \<lfloor>(- x) * 100 + 1 / 2\<rfloor> / 100 - (- x))"
    by (simp add: decimal2_def)
  then have "\<bar>decimal2 x - x\<bar> = \<bar>of_int \<lfloor>(- x) * 100 + 1 / 2\<rfloor> / 100 - (- x)\<bar>"
    by (simp only: abs_minus_cancel)
  then show ?thesis using round_half_up_near [of "- x"] by (simp only:)
next
  case False
  then have "decimal2 x = of_int \<lfloor>x * 100 + 1 / 2\<rfloor> / 100"
    by (simp add: decimal2_def)
  then show ?thesis using round_half_up_near [of x] by (simp only:)
qed

text \<open>A value less than half a cent away from a whole number of cents rounds to it.\<close>

lemma decimal2_unique:
  assumes "two_decimals d" and "\<bar>x - d\<bar> < 1 / 200"
  shows "decimal2 x = d"
proof -
  from assms(1) obtain k :: int where d: "d = of_int k / 100"
    unfolding two_decimals_iff ..
  from assms(2) have lo: "of_int k - 1 / 2 < x * 100" and hi: "x * 100 < of_int k + 1 / 2"
    unfolding d by linarith+
  show ?thesis
  proof (cases "x < 0")
    case True
    have "\<lfloor>(- x) * 100 + 1 / 2\<rfloor> = - k" using lo hi by linarith
    with True show ?thesis by (simp add: decimal2_def d)
  next
    case False
    have "\<lfloor>x * 100 + 1 / 2\<rfloor> = k" using lo hi by linarith
    with False show ?thesis by (simp add: decimal2_def d)
  qed
qed

lemma decimal2_nonneg: "0 \<le> x \<Longrightarrow> 0 \<le> decimal2 x"
  by (simp add: decimal2_def)

lemma sql_round2_toFixed2: "sql_round2 x = toFixed2 x"
  by (simp add: sql_round2_def toFixed2_def)

lemma two_decimals_nat: "two_decimals (of_nat n)"
  unfolding two_decimals_iff by (rule exI [of _ "int n * 100"]) simp

lemma two_decimals_zero: "two_decimals 0"
  by (simp add: two_decimals_def)

lemma two_decimals_add: "two_decimals x \<Longrightarrow> two_decimals y \<Longrightarrow> two_decimals (x + y)"
  unfolding two_decimals_iff
proof -
  assume "\<exists>k::int. x = of_int k / 100" "\<exists>k::int. y = of_int k / 100"
  then obtain k l :: int where "x = of_int k / 100" "y = of_int l / 100" by blast
  then have "x + y = of_int (k + l) / 100" by (simp add: add_divide_distrib)
  then show "\<exists>k::int. x + y = of_int k / 100" ..
qed

lemma two_decimals_fraction:
  assumes "1 \<le> length fp" "length fp \<le> 2"
  shows "two_decimals (of_nat n / 10 ^ length fp)"
proof -
  from assms have "length fp = 1 \<or> length fp = 2" by linarith
  then show ?thesis
  proof
    assume "length fp = 1"
    then have "of_nat n / 10 ^ length fp = (of_int (int n * 10) / 100 :: rat)" by simp
    then show ?thesis unfolding two_decimals_iff ..
  next
    assume "length fp = 2"
    then have "of_nat n / 10 ^ length fp = (of_int (int n) / 100 :: rat)" by simp
    then show ?thesis unfolding two_decimals_iff ..
  qed
qed

text \<open>A whole number of cents that is not negative is zero or at least one cent.\<close>

lemma two_decimals_cases:
  assumes "two_decimals z" and "0 \<le> z"
  shows "z = 0 \<or> 1 / 100 \<le> z"
proof -
  from assms(1) obtain k :: int where z: "z = of_int k / 100"
    unfolding two_decimals_iff ..
  with assms(2) have "0 \<le> k" by (simp add: zero_le_divide_iff)
  then have "k = 0 \<or> 1 \<le> k" by linarith
  then show ?thesis
  proof
    assume "k = 0"
    then show ?thesis unfolding z by simp
  next
    assume "1 \<le> k"
    then have "(1::rat) \<le> of_int k" by simp
    then show ?thesis unfolding z by (simp add: divide_right_mono)
  qed
qed

section \<open>Rounding to doubles\<close>

lemma round_half_even_near: "\<bar>y - of_int m\<bar> < 1 / 2 \<Longrightarrow> round_half_even y = m"
proof -
  assume a: "\<bar>y - of_int m\<bar> < 1 / 2"
  then have lo: "of_int m - 1 / 2 < y" and hi: "y < of_int m + 1 / 2" by linarith+
  have "\<lfloor>y\<rfloor> = m \<or> \<lfloor>y\<rfloor> = m - 1" using lo hi by linarith
  then show ?thesis
  proof
    assume f: "\<lfloor>y\<rfloor> = m"
    then have "y - of_int \<lfloor>y\<rfloor> < 1 / 2" using hi by simp
    then show ?thesis using f by (simp add: round_half_even_def Let_def)
  next
    assume f: "\<lfloor>y\<rfloor> = m - 1"
    then have "1 / 2 < y - of_int \<lfloor>y\<rfloor>" using lo by simp
    then show ?thesis using f by (simp add: round_half_even_def Let_def)
  qed
qed

lemma round_half_even_bound: "\<bar>of_int (round_half_even y) - y\<bar> \<le> 1 / 2"
proof -
  have "of_int \<lfloor>y\<rfloor> \<le> y" "y < of_int \<lfloor>y\<rfloor> + 1" by linarith+
  then show ?thesis
    by (auto simp: round_half_even_def Let_def abs_le_iff)
qed

lemma round_half_even_of_int: "round_half_even (of_int k) = k"
  by (rule round_half_even_near) simp

lemma round_half_even_ge: "of_int k \<le> y \<Longrightarrow> k \<le> round_half_even y"
proof -
  assume "of_int k \<le> y"
  then have "k \<le> \<lfloor>y\<rfloor>" by (simp add: le_floor_iff)
  then show ?thesis by (simp add: round_half_even_def Let_def)
qed

lemma round_half_even_le: "y \<le> of_int k \<Longrightarrow> round_half_even y \<le> k"
proof (cases "y = of_int k")
  case True
  then show ?thesis by (simp add: round_half_even_of_int)
next
  case False
  assume "y \<le> of_int k"
  with False have "y < of_int k" by simp
  then have "\<lfloor>y\<rfloor> < k" by (simp add: floor_less_iff)
  then show ?thesis by (simp add: round_half_even_def Let_def)
qed

lemma round_half_even_mono: "y \<le> z \<Longrightarrow> round_half_even y \<le> round_half_even z"
proof -
  assume yz: "y \<le> z"
  have fl: "\<lfloor>y\<rfloor> \<le> \<lfloor>z\<rfloor>" using yz by (rule floor_mono)
  show ?thesis
  proof (cases "\<lfloor>y\<rfloor> = \<lfloor>z\<rfloor>")
    case True
    then have "y - of_int \<lfloor>y\<rfloor> \<le> z - of_int \<lfloor>z\<rfloor>" using yz by simp
    then show ?thesis using True by (auto simp: round_half_even_def Let_def)
  next
    case False
    with fl have "\<lfloor>y\<rfloor> + 1 \<le> \<lfloor>z\<rfloor>" by simp
    moreover have "round_half_even y \<le> \<lfloor>y\<rfloor> + 1" by (simp add: round_half_even_def Let_def)
    moreover have "\<lfloor>z\<rfloor> \<le> round_half_even z" by (simp add: round_half_even_def Let_def)
    ultimately show ?thesis by linarith
  qed
qed

lemma binade_bounds:
  assumes "0 < x"
  shows "2 powi binade x \<le> x \<and> x < 2 powi (binade x + 1)"
proof (cases "1 \<le> x")
  case True
  define n where "n = nat \<lfloor>x\<rfloor>"
  define L where "L = floorlog 2 n"
  from True have n1: "1 \<le> n" unfolding n_def by (simp add: le_nat_iff le_floor_iff)
  then have n0: "0 < n" by simp
  from floorlog_bounds [OF n0, of 2] have b: "2 ^ (L - 1) \<le> n" "n < 2 ^ L"
    unfolding L_def by simp_all
  have L1: "1 \<le> L" using n0 unfolding L_def by (simp add: floorlog_def)
  have nx: "of_nat n \<le> x" "x < of_nat n + 1"
    using True unfolding n_def by (simp_all add: of_nat_nat) linarith+
  have be: "binade x = int L - 1" using True by (simp add: binade_def n_def L_def)
  have "int L - 1 = int (L - 1)" using L1 by simp
  then have p1: "(2::rat) powi (int L - 1) = 2 ^ (L - 1)" by (simp only: power_int_of_nat)
  have p2: "(2::rat) powi (int L - 1 + 1) = 2 ^ L" by (simp add: power_int_of_nat)
  have "(2::rat) ^ (L - 1) \<le> of_nat n" using b(1) by (metis of_nat_le_iff of_nat_numeral of_nat_power)
  then have lo: "(2::rat) ^ (L - 1) \<le> x" using nx(1) by (rule order_trans)
  have "n + 1 \<le> 2 ^ L" using b(2) by simp
  then have "(of_nat (n + 1) :: rat) \<le> 2 ^ L" by (metis of_nat_le_iff of_nat_numeral of_nat_power)
  then have "of_nat n + 1 \<le> (2::rat) ^ L" by simp
  with nx(2) have hi: "x < 2 ^ L" by (rule less_le_trans)
  show ?thesis unfolding be p1 p2 using lo hi ..
next
  case False
  define y where "y = 1 / x"
  from False assms have y1: "1 < y" unfolding y_def by simp
  define n where "n = nat (\<lceil>y\<rceil> - 1)"
  define L where "L = floorlog 2 n"
  have c2: "2 \<le> \<lceil>y\<rceil>" using y1 by linarith
  then have n0: "0 < n" unfolding n_def by simp
  from floorlog_bounds [OF n0, of 2] have b: "2 ^ (L - 1) \<le> n" "n < 2 ^ L"
    unfolding L_def by simp_all
  have L1: "1 \<le> L" using n0 unfolding L_def by (simp add: floorlog_def)
  have "of_nat n = (of_int (\<lceil>y\<rceil> - 1) :: rat)" using c2 unfolding n_def by (simp add: of_nat_nat)
  then have ny: "of_nat n < y" "y \<le> of_nat n + 1" by linarith+
  have be: "binade x = - int L" using False by (simp add: binade_def n_def L_def y_def)
  have "(2::rat) ^ (L - 1) \<le> of_nat n" using b(1) by (metis of_nat_le_iff of_nat_numeral of_nat_power)
  then have lo: "(2::rat) ^ (L - 1) < y" using ny(1) by (rule le_less_trans)
  have "n + 1 \<le> 2 ^ L" using b(2) by simp
  then have "(of_nat (n + 1) :: rat) \<le> 2 ^ L" by (metis of_nat_le_iff of_nat_numeral of_nat_power)
  then have "of_nat n + 1 \<le> (2::rat) ^ L" by simp
  with ny(2) have hi: "y \<le> 2 ^ L" by (rule order_trans)
  have x: "x = 1 / y" unfolding y_def by simp
  have p1: "(2::rat) powi (- int L) = 1 / 2 ^ L" by (simp add: power_int_minus_divide)
  have "- int L + 1 = - int (L - 1)" using L1 by simp
  then have p2: "(2::rat) powi (- int L + 1) = 1 / 2 ^ (L - 1)"
    by (simp only: power_int_minus_divide power_int_of_nat)
  have "1 / 2 ^ L \<le> 1 / y" using hi y1 by (simp add: frac_le)
  then have a: "1 / 2 ^ L \<le> x" unfolding x .
  have "1 / y < 1 / 2 ^ (L - 1)" using lo by (simp add: frac_less2)
  then have b: "x < 1 / 2 ^ (L - 1)" unfolding x .
  show ?thesis unfolding be p1 p2 using a b ..
qed

lemma binade_unique:
  assumes "2 powi e \<le> x" and "x < 2 powi (e + 1)"
  shows "binade x = e"
proof -
  have "(0::rat) < 2 powi e" by (simp add: zero_less_power_int)
  then have x: "0 < x" using assms(1) by (rule less_le_trans)
  note b = binade_bounds [OF x]
  have "(2::rat) powi e < 2 powi (binade x + 1)" using assms(1) b by simp
  then have "e < binade x + 1"
    by (metis not_less power_int_increasing one_le_numeral)
  moreover have "(2::rat) powi binade x < 2 powi (e + 1)" using assms(2) b by simp
  then have "binade x < e + 1"
    by (metis not_less power_int_increasing one_le_numeral)
  ultimately show ?thesis by simp
qed

lemma threshold_large: "(2::rat) ^ 64 \<le> 2 ^ 1024 - 2 ^ 970"
proof -
  have "(2::rat) ^ 1024 = 2 ^ 970 * 2 ^ 54" by (simp only: power_add [symmetric]) simp
  moreover have "(2::rat) ^ 64 \<le> 2 ^ 970" by (rule power_increasing) simp_all
  moreover have "(1::rat) \<le> 2 ^ 54 - 1" by simp
  ultimately have "(2::rat) ^ 64 * 1 \<le> 2 ^ 970 * (2 ^ 54 - 1)"
    by (intro mult_mono) simp_all
  then show ?thesis using \<open>(2::rat) ^ 1024 = 2 ^ 970 * 2 ^ 54\<close> by (simp add: algebra_simps)
qed

lemma binade_normal:
  assumes "2 powi (- 1022) \<le> x"
  shows "- 1022 \<le> binade x"
proof -
  have "(0::rat) < 2 powi (- 1022)" by (rule zero_less_power_int) simp
  then have x: "0 < x" using assms by (rule less_le_trans)
  from binade_bounds [OF x] assms have "(2::rat) powi (- 1022) < 2 powi (binade x + 1)" by simp
  then have "- 1022 < binade x + 1"
    by (metis not_less power_int_increasing one_le_numeral)
  then show ?thesis by simp
qed

lemma to_double_normal:
  assumes "2 powi (- 1022) \<le> x" and "x < 2 ^ 1024 - 2 ^ 970"
  shows "to_double x =
    of_int (round_half_even (x / 2 powi (binade x - 52))) * 2 powi (binade x - 52)"
proof -
  have "(0::rat) < 2 powi (- 1022)" by (rule zero_less_power_int) simp
  then have x: "0 < x" using assms(1) by (rule less_le_trans)
  then have a: "\<bar>x\<bar> = x" "sgn x = 1" "x \<noteq> 0" by simp_all
  from binade_normal [OF assms(1)] have m: "max (binade x - 52) (- 1074) = binade x - 52" by simp
  from assms(2) have "\<not> 2 ^ 1024 - 2 ^ 970 \<le> x" by simp
  then show ?thesis
    unfolding to_double_def a Let_def m by (simp add: a(3))
qed

lemma to_double_eq:
  assumes "2 powi (- 1022) \<le> x" and "x < 2 ^ 1024 - 2 ^ 970"
    and "2 ^ 52 \<le> x / 2 powi e" and "x / 2 powi e < 2 ^ 53"
  shows "to_double x = of_int (round_half_even (x / 2 powi e)) * 2 powi e"
proof -
  have pos: "(0::rat) < 2 powi e" by (rule zero_less_power_int) simp
  from assms(3) pos have "2 ^ 52 * 2 powi e \<le> x" by (simp add: pos_le_divide_eq)
  moreover have "(2::rat) ^ 52 * 2 powi e = 2 powi (e + 52)"
    by (simp add: power_int_add)
  ultimately have lo: "2 powi (e + 52) \<le> x" by simp
  from assms(4) pos have "x < 2 ^ 53 * 2 powi e" by (simp add: pos_divide_less_eq)
  moreover have "(2::rat) ^ 53 * 2 powi e = 2 powi (e + 52 + 1)"
    by (simp add: power_int_add)
  ultimately have hi: "x < 2 powi (e + 52 + 1)" by simp
  from lo hi have "binade x = e + 52" by (rule binade_unique)
  then have "binade x - 52 = e" by simp
  then show ?thesis using to_double_normal [OF assms(1,2)] by simp
qed

lemma to_double_nearest:
  assumes "2 powi (- 1022) \<le> x" and "x < 2 ^ 1024 - 2 ^ 970"
    and "2 ^ 52 \<le> x * 2 ^ k" and "x * 2 ^ k < 2 ^ 53"
    and "\<bar>x * 2 ^ k - of_int m\<bar> < 1 / 2"
  shows "to_double x = of_int m / 2 ^ k"
proof -
  have e: "x / 2 powi (- int k) = x * 2 ^ k"
    by (simp add: power_int_minus power_int_of_nat divide_inverse)
  have "to_double x = of_int (round_half_even (x / 2 powi (- int k))) * 2 powi (- int k)"
    using assms(1,2) by (rule to_double_eq) (simp_all only: e assms)
  also have "round_half_even (x / 2 powi (- int k)) = m"
    unfolding e using assms(5) by (rule round_half_even_near)
  finally show ?thesis by (simp add: power_int_minus divide_inverse)
qed

lemma to_double_error:
  assumes "2 powi (- 1022) \<le> x" and "x < 2 ^ 1024 - 2 ^ 970"
  shows "\<bar>to_double x - x\<bar> \<le> 2 powi (binade x - 53)"
proof -
  define e where "e = binade x - 52"
  define y where "y = x / 2 powi e"
  have pos: "(0::rat) < 2 powi e" by (rule zero_less_power_int) simp
  have x: "x = y * 2 powi e" unfolding y_def using pos by simp
  have "to_double x = of_int (round_half_even y) * 2 powi e"
    unfolding y_def e_def using assms by (rule to_double_normal)
  then have "to_double x - x = (of_int (round_half_even y) - y) * 2 powi e"
    using x by (simp add: algebra_simps)
  then have "\<bar>to_double x - x\<bar> = \<bar>of_int (round_half_even y) - y\<bar> * 2 powi e"
    using pos by (simp add: abs_mult)
  also have "\<dots> \<le> 1 / 2 * 2 powi e"
    using round_half_even_bound [of y] pos by (intro mult_right_mono) simp_all
  also have "\<dots> = 2 powi (binade x - 53)"
  proof -
    have "binade x - 53 = e - 1" unfolding e_def by simp
    then show ?thesis by (simp add: power_int_diff)
  qed
  finally show ?thesis .
qed

lemma to_double_error_below:
  assumes "2 powi (- 1022) \<le> x" and "x < 2 ^ n" and "n \<le> 64"
  shows "\<bar>to_double x - x\<bar> \<le> 2 powi (int n - 54)"
proof -
  have "(2::rat) ^ n \<le> 2 ^ 64" using assms(3) by (intro power_increasing) simp_all
  with assms(2) threshold_large have thr: "x < 2 ^ 1024 - 2 ^ 970" by linarith
  have "(0::rat) < 2 powi (- 1022)" by (rule zero_less_power_int) simp
  then have x: "0 < x" using assms(1) by (rule less_le_trans)
  from binade_bounds [OF x] assms(2) have "(2::rat) powi binade x < 2 powi int n"
    by (simp add: power_int_of_nat)
  then have "binade x < int n"
    by (metis not_less power_int_increasing one_le_numeral)
  then have "binade x - 53 \<le> int n - 54" by simp
  then have "(2::rat) powi (binade x - 53) \<le> 2 powi (int n - 54)"
    by (intro power_int_increasing) simp_all
  with to_double_error [OF assms(1) thr] show ?thesis by linarith
qed

lemma to_double_grid:
  assumes "2 powi (- 1022) \<le> x" and "x < 2 ^ 1024 - 2 ^ 970"
  shows "2 powi binade x \<le> to_double x \<and> to_double x \<le> 2 powi (binade x + 1)"
proof -
  define e where "e = binade x - 52"
  define y where "y = x / 2 powi e"
  have pos: "(0::rat) < 2 powi e" by (rule zero_less_power_int) simp
  have "(0::rat) < 2 powi (- 1022)" by (rule zero_less_power_int) simp
  then have x: "0 < x" using assms(1) by (rule less_le_trans)
  have b1: "(2::rat) powi binade x = 2 ^ 52 * 2 powi e"
    unfolding e_def by (simp add: power_int_diff)
  have b2: "(2::rat) powi (binade x + 1) = 2 ^ 53 * 2 powi e"
    unfolding e_def by (simp add: power_int_diff power_int_add)
  from binade_bounds [OF x] have "2 ^ 52 * 2 powi e \<le> x" "x < 2 ^ 53 * 2 powi e"
    unfolding b1 b2 by simp_all
  then have y: "of_int (2 ^ 52) \<le> y" "y \<le> of_int (2 ^ 53)"
    unfolding y_def using pos by (simp_all add: pos_le_divide_eq pos_divide_le_eq)
  have r: "2 ^ 52 \<le> round_half_even y" "round_half_even y \<le> 2 ^ 53"
    using y(1) apply (rule round_half_even_ge) using y(2) by (rule round_half_even_le)
  have t: "to_double x = of_int (round_half_even y) * 2 powi e"
    unfolding y_def e_def using assms by (rule to_double_normal)
  have "(2::rat) ^ 52 \<le> of_int (round_half_even y)" "(of_int (round_half_even y) :: rat) \<le> 2 ^ 53"
    using r by (metis of_int_le_iff of_int_numeral of_int_power)+
  then show ?thesis
    unfolding t b1 b2 using pos by (simp add: mult_right_mono)
qed

lemma to_double_mono:
  assumes "2 powi (- 1022) \<le> x" and "x \<le> y"
  shows "to_double x \<le> to_double y"
proof -
  have "(0::rat) < 2 powi (- 1022)" by (rule zero_less_power_int) simp
  then have x: "0 < x" using assms(1) by (rule less_le_trans)
  then have y: "0 < y" using assms(2) by simp
  have ny: "2 powi (- 1022) \<le> y" using assms by simp
  show ?thesis
  proof (cases "2 ^ 1024 - 2 ^ 970 \<le> y")
    case True
    then have ty: "to_double y = 2 ^ 1024" using y by (simp add: to_double_def)
    show ?thesis
    proof (cases "2 ^ 1024 - 2 ^ 970 \<le> x")
      case True
      then have "to_double x = 2 ^ 1024" using x by (simp add: to_double_def)
      with ty show ?thesis by simp
    next
      case False
      then have thr: "x < 2 ^ 1024 - 2 ^ 970" by simp
      then have "x < 2 powi 1024" by (simp add: power_int_of_nat)
      with binade_bounds [OF x] have "(2::rat) powi binade x < 2 powi 1024" by simp
      then have "binade x < 1024"
        by (metis not_less power_int_increasing one_le_numeral)
      then have "(2::rat) powi (binade x + 1) \<le> 2 powi 1024"
        by (intro power_int_increasing) simp_all
      with to_double_grid [OF assms(1) thr] have "to_double x \<le> 2 powi 1024" by simp
      with ty show ?thesis by simp
    qed
  next
    case False
    then have thy: "y < 2 ^ 1024 - 2 ^ 970" by simp
    with assms(2) have thx: "x < 2 ^ 1024 - 2 ^ 970" by simp
    from binade_bounds [OF x] binade_bounds [OF y] assms(2)
    have "(2::rat) powi binade x < 2 powi (binade y + 1)" by simp
    then have "binade x < binade y + 1"
      by (metis not_less power_int_increasing one_le_numeral)
    then have "binade x = binade y \<or> binade x + 1 \<le> binade y" by linarith
    then show ?thesis
    proof
      assume e: "binade x = binade y"
      have pos: "(0::rat) < 2 powi (binade y - 52)" by (rule zero_less_power_int) simp
      have "x / 2 powi (binade y - 52) \<le> y / 2 powi (binade y - 52)"
        using assms(2) pos by (simp add: divide_right_mono)
      then have "round_half_even (x / 2 powi (binade y - 52)) \<le> round_half_even (y / 2 powi (binade y - 52))"
        by (rule round_half_even_mono)
      then have "(of_int (round_half_even (x / 2 powi (binade y - 52))) :: rat) \<le>
          of_int (round_half_even (y / 2 powi (binade y - 52)))" by simp
      then show ?thesis
        unfolding to_double_normal [OF assms(1) thx] to_double_normal [OF ny thy] e
        using pos by (simp add: mult_right_mono)
    next
      assume "binade x + 1 \<le> binade y"
      then have "(2::rat) powi (binade x + 1) \<le> 2 powi binade y"
        by (intro power_int_increasing) simp_all
      with to_double_grid [OF assms(1) thx] to_double_grid [OF ny thy]
      show ?thesis by linarith
    qed
  qed
qed

lemma to_double_dyadic:
  assumes "k < 2 ^ 53" and "j \<le> 1022"
  shows "to_double (of_nat k / 2 ^ j) = of_nat k / 2 ^ j"
proof (cases "k = 0")
  case True
  then show ?thesis by (simp add: to_double_def)
next
  case False
  define x :: rat where "x = of_nat k / 2 ^ j"
  have k1: "(1::rat) \<le> of_nat k" using False by simp
  have xj: "x = of_nat k * 2 powi (- int j)"
    unfolding x_def by (simp add: power_int_minus power_int_of_nat divide_inverse)
  have "(2::rat) powi (- 1022) \<le> 2 powi (- int j)"
    using assms(2) by (intro power_int_increasing) simp_all
  also have "\<dots> \<le> x" unfolding xj using k1 by (simp add: zero_less_power_int)
  finally have normal: "2 powi (- 1022) \<le> x" .
  have "(0::rat) < 2 powi (- 1022)" by (rule zero_less_power_int) simp
  then have x0: "0 < x" using normal by (rule less_le_trans)
  have "(of_nat k :: rat) < 2 ^ 53" using assms(1) by (metis of_nat_less_iff of_nat_numeral of_nat_power)
  then have k53: "(of_nat k :: rat) < 2 powi 53" by simp
  have "(2::rat) powi (- int j) \<le> 1" by (simp add: power_int_minus power_int_of_nat inverse_le_1_iff)
  then have "x \<le> of_nat k" unfolding xj using k1 by (simp add: mult_left_le)
  then have "x < 2 ^ 53" using \<open>(of_nat k :: rat) < 2 ^ 53\<close> by (rule le_less_trans)
  moreover have "(2::rat) ^ 53 \<le> 2 ^ 64" by (rule power_increasing) simp_all
  ultimately have thr: "x < 2 ^ 1024 - 2 ^ 970" using threshold_large by linarith
  have "x < 2 powi 53 * 2 powi (- int j)"
    unfolding xj using k53 by (simp add: zero_less_power_int)
  then have "x < 2 powi (53 - int j)" by (simp add: power_int_diff power_int_minus divide_inverse)
  with binade_bounds [OF x0] have "(2::rat) powi binade x < 2 powi (53 - int j)" by simp
  then have "binade x < 53 - int j"
    by (metis not_less power_int_increasing one_le_numeral)
  then have "0 \<le> 52 - binade x - int j" by simp
  then obtain t :: nat where t: "52 - binade x - int j = int t"
    by (rule nonneg_int_cases)
  have "x / 2 powi (binade x - 52) = of_nat k * 2 powi (- int j - (binade x - 52))"
    unfolding xj by (simp add: power_int_diff)
  also have "- int j - (binade x - 52) = int t" using t by simp
  finally have y: "x / 2 powi (binade x - 52) = of_int (int k * 2 ^ t)"
    by (simp add: power_int_of_nat)
  have "to_double x = of_int (int k * 2 ^ t) * 2 powi (binade x - 52)"
    unfolding to_double_normal [OF normal thr] y round_half_even_of_int ..
  also have "\<dots> = of_nat k * (2 powi int t * 2 powi (binade x - 52))"
    by (simp add: power_int_of_nat)
  also have "2 powi int t * 2 powi (binade x - 52) = (2::rat) powi (- int j)"
    unfolding t [symmetric] by (simp add: power_int_add [symmetric])
  finally show ?thesis unfolding xj [symmetric] x_def .
qed

lemma to_double_zero: "to_double 0 = 0"
  by (simp add: to_double_def)

lemma to_double_nonneg: "0 \<le> x \<Longrightarrow> 0 \<le> to_double x"
proof -
  assume x: "0 \<le> x"
  have "0 \<le> round_half_even (\<bar>x\<bar> / 2 powi e)" for e
    by (rule round_half_even_ge) simp
  then have "(0::rat) \<le> of_int (round_half_even (\<bar>x\<bar> / 2 powi e)) * 2 powi e" for e
    by (simp add: zero_le_power_int)
  with x show ?thesis
    by (simp add: to_double_def Let_def sgn_if)
qed

text \<open>Whole numbers and halves below \<open>2\<^sup>5\<^sup>3\<close> are doubles.\<close>

lemma to_double_numeral: "numeral k < (2::nat) ^ 53 \<Longrightarrow> to_double (numeral k) = numeral k"
  using to_double_dyadic [of "numeral k" 0] by simp

lemma to_double_one: "to_double 1 = 1"
  using to_double_dyadic [of 1 0] by simp

lemma to_double_half: "numeral k < (2::nat) ^ 53 \<Longrightarrow> to_double (numeral k / 2) = numeral k / 2"
  using to_double_dyadic [of "numeral k" 1] by simp

text \<open>
  The nearest double, computed at a given scale: \<open>m\<close> is the integer nearest to
  \<open>x * 2\<^sup>k\<close>, which lies between \<open>2\<^sup>5\<^sup>2\<close> and \<open>2\<^sup>5\<^sup>3\<close>.
\<close>

lemma to_double_scaled:
  assumes "k \<le> 1074" and "2 ^ 52 \<le> x * 2 ^ k" and "x * 2 ^ k < 2 ^ 53"
    and "\<bar>x * 2 ^ k - of_int m\<bar> < 1 / 2"
  shows "to_double x = of_int m / 2 ^ k"
proof -
  have pk: "(0::rat) < 2 ^ k" by simp
  have "(2::rat) powi (- 1022) = 2 ^ 52 * 2 powi (- 1074)"
    by (simp add: power_int_minus field_simps)
  also have "\<dots> \<le> 2 ^ 52 * 2 powi (- int k)"
    using assms(1) by (intro mult_left_mono power_int_increasing) simp_all
  also have "\<dots> = 2 ^ 52 / 2 ^ k"
    by (simp add: power_int_minus divide_inverse)
  also have "\<dots> \<le> x" using assms(2) pk by (simp add: pos_divide_le_eq)
  finally have normal: "2 powi (- 1022) \<le> x" .
  have "x < 2 ^ 53 / 2 ^ k" using assms(3) pk by (simp add: pos_less_divide_eq)
  also have "\<dots> \<le> 2 ^ 53" by (simp add: pos_divide_le_eq)
  also have "\<dots> \<le> (2::rat) ^ 64" by (rule power_increasing) simp_all
  finally have "x < 2 ^ 1024 - 2 ^ 970" using threshold_large by linarith
  with normal show ?thesis using assms(2,3,4) by (rule to_double_nearest)
qed

text \<open>The literal \<open>0.01\<close>: the double nearest to one hundredth lies a little above it.\<close>

lemma to_double_cent: "to_double (1 / 100) = 5764607523034235 / 576460752303423488"
  using to_double_scaled [of 59 "1 / 100" 5764607523034235] by simp

lemma to_double_ge_cent:
  assumes "1 / 100 \<le> z"
  shows "to_double (1 / 100) \<le> to_double z"
proof -
  have "(2::rat) powi (- 1022) \<le> 2 powi (- 7)"
    by (rule power_int_increasing) simp_all
  also have "\<dots> \<le> 1 / 100" by (simp add: power_int_minus)
  finally show ?thesis using assms by (rule to_double_mono)
qed

text \<open>
  On the double of a whole number of cents, the test \<open>amount < 0.01\<close> decides whether the
  amount is below one hundredth.
\<close>

lemma below_cent_iff:
  assumes "two_decimals z" and "0 \<le> z"
  shows "to_double z < to_double (1 / 100) \<longleftrightarrow> to_double z < 1 / 100"
proof -
  from assms have "z = 0 \<or> 1 / 100 \<le> z" by (rule two_decimals_cases)
  then show ?thesis
  proof
    assume "z = 0"
    then show ?thesis by (simp add: to_double_zero to_double_cent)
  next
    assume "1 / 100 \<le> z"
    then have "to_double (1 / 100) \<le> to_double z" by (rule to_double_ge_cent)
    moreover have "(1 / 100 :: rat) < to_double (1 / 100)" by (simp add: to_double_cent)
    ultimately show ?thesis by linarith
  qed
qed

text \<open>
  Below \<open>2\<^sup>4\<^sup>6\<close> the doubles are less than half a cent apart: the double of a whole number
  of cents rounds back to it.
\<close>

lemma double_of_cents:
  assumes "two_decimals d" and "0 \<le> d" and "d < 2 ^ 46"
  shows "decimal2 (to_double d) = d" and "\<bar>to_double d - d\<bar> \<le> 1 / 256"
proof -
  have e: "\<bar>to_double d - d\<bar> \<le> 1 / 256"
  proof -
    from assms(1,2) have "d = 0 \<or> 1 / 100 \<le> d" by (rule two_decimals_cases)
    then show ?thesis
    proof
      assume "d = 0"
      then show ?thesis by (simp add: to_double_zero)
    next
      assume d: "1 / 100 \<le> d"
      have "(2::rat) powi (- 1022) \<le> 2 powi (- 7)"
        by (rule power_int_increasing) simp_all
      also have "\<dots> \<le> 1 / 100" by (simp add: power_int_minus)
      finally have "2 powi (- 1022) \<le> d" using d by simp
      then have "\<bar>to_double d - d\<bar> \<le> 2 powi (int 46 - 54)"
        using assms(3) by (rule to_double_error_below) simp
      then show ?thesis by (simp add: power_int_minus)
    qed
  qed
  then show "\<bar>to_double d - d\<bar> \<le> 1 / 256" .
  from e have "\<bar>to_double d - d\<bar> < 1 / 200" by simp
  with assms(1) show "decimal2 (to_double d) = d" by (rule decimal2_unique)
qed

section \<open>The value of a decimal literal\<close>

text \<open>The point is code unit 46.\<close>

lemma point_not_digit: "\<not> decimal_digit 46"
  by (simp add: decimal_digit_def units_def)

lemma takeWhile_digits:
  "list_all decimal_digit ip \<Longrightarrow>
     takeWhile (\<lambda>c. c \<noteq> 46) (ip @ 46 # fp) = ip"
  by (induction ip) (auto simp: point_not_digit)

lemma takeWhile_digits_all:
  "list_all decimal_digit ip \<Longrightarrow> takeWhile (\<lambda>c. c \<noteq> 46) ip = ip"
  by (induction ip) (auto simp: point_not_digit)

lemma decimal_value_integer:
  "list_all decimal_digit ip \<Longrightarrow> decimal_value ip = of_nat (digits_value ip)"
  by (simp add: decimal_value_def takeWhile_digits_all digits_value_def)

lemma decimal_value_fraction:
  "list_all decimal_digit ip \<Longrightarrow>
     decimal_value (ip @ units ''.'' @ fp) =
       of_nat (digits_value ip) + of_nat (digits_value fp) / 10 ^ length fp"
  by (simp add: decimal_value_def units_def takeWhile_digits Let_def)

lemma decimal_value_nonneg: "0 \<le> decimal_value s"
  by (simp add: decimal_value_def Let_def)

section \<open>The amount format\<close>

lemma nullable_lang: "nullable r \<longleftrightarrow> [] \<in> lang r"
  by (induction r) (auto simp: conc_def intro: star.star_empty)

lemma star_cons_iff:
  "c # w \<in> star A \<longleftrightarrow> (\<exists>u v. w = u @ v \<and> c # u \<in> A \<and> v \<in> star A)"
proof
  assume "c # w \<in> star A"
  then show "\<exists>u v. w = u @ v \<and> c # u \<in> A \<and> v \<in> star A"
  proof (induction "c # w" arbitrary: w rule: star.induct)
    case (star_app u v)
    show ?case
    proof (cases u)
      case Nil
      with star_app show ?thesis by simp
    next
      case (Cons a u')
      with star_app have "w = u' @ v" "c # u' \<in> A" "v \<in> star A" by auto
      then show ?thesis by blast
    qed
  qed
next
  assume "\<exists>u v. w = u @ v \<and> c # u \<in> A \<and> v \<in> star A"
  then obtain u v where "w = u @ v" "c # u \<in> A" "v \<in> star A" by blast
  then show "c # w \<in> star A"
    using star.star_app [of "c # u" A v] by simp
qed

lemma conc_cons_iff:
  "c # w \<in> conc A B \<longleftrightarrow>
     (\<exists>u v. w = u @ v \<and> c # u \<in> A \<and> v \<in> B) \<or> ([] \<in> A \<and> c # w \<in> B)"
proof
  assume "c # w \<in> conc A B"
  then obtain x y where xy: "c # w = x @ y" "x \<in> A" "y \<in> B"
    unfolding conc_def by blast
  show "(\<exists>u v. w = u @ v \<and> c # u \<in> A \<and> v \<in> B) \<or> ([] \<in> A \<and> c # w \<in> B)"
  proof (cases x)
    case Nil
    with xy show ?thesis by simp
  next
    case (Cons a x')
    with xy have "w = x' @ y" "c # x' \<in> A" by simp_all
    with xy(3) show ?thesis by blast
  qed
next
  assume "(\<exists>u v. w = u @ v \<and> c # u \<in> A \<and> v \<in> B) \<or> ([] \<in> A \<and> c # w \<in> B)"
  then show "c # w \<in> conc A B"
  proof
    assume "\<exists>u v. w = u @ v \<and> c # u \<in> A \<and> v \<in> B"
    then obtain u v where "w = u @ v" "c # u \<in> A" "v \<in> B" by blast
    then have "c # w = (c # u) @ v \<and> c # u \<in> A \<and> v \<in> B" by simp
    then show ?thesis unfolding conc_def by blast
  next
    assume "[] \<in> A \<and> c # w \<in> B"
    then have "c # w = [] @ (c # w) \<and> [] \<in> A \<and> c # w \<in> B" by simp
    then show ?thesis unfolding conc_def by blast
  qed
qed

lemma mem_conc_iff: "w \<in> conc A B \<longleftrightarrow> (\<exists>u v. w = u @ v \<and> u \<in> A \<and> v \<in> B)"
  unfolding conc_def by blast

lemma lang_deriv: "w \<in> lang (deriv c r) \<longleftrightarrow> c # w \<in> lang r"
proof (induction r arbitrary: w)
  case (Seq r s)
  have split: "w \<in> conc (lang (deriv c r)) (lang s) \<longleftrightarrow>
      (\<exists>u v. w = u @ v \<and> c # u \<in> lang r \<and> v \<in> lang s)"
    by (simp add: mem_conc_iff Seq)
  show ?case
  proof (cases "nullable r")
    case True
    then have "w \<in> lang (deriv c (Seq r s)) \<longleftrightarrow>
        w \<in> conc (lang (deriv c r)) (lang s) \<or> w \<in> lang (deriv c s)"
      by simp
    also have "\<dots> \<longleftrightarrow> c # w \<in> conc (lang r) (lang s)"
      using True by (simp only: split Seq conc_cons_iff nullable_lang simp_thms)
    finally show ?thesis by simp
  next
    case False
    then have "w \<in> lang (deriv c (Seq r s)) \<longleftrightarrow> w \<in> conc (lang (deriv c r)) (lang s)"
      by simp
    also have "\<dots> \<longleftrightarrow> c # w \<in> conc (lang r) (lang s)"
      using False by (simp only: split conc_cons_iff nullable_lang simp_thms)
    finally show ?thesis by simp
  qed
next
  case (Star r)
  then show ?case
    by (simp add: star_cons_iff mem_conc_iff)
qed auto

lemma test_lang: "test r s \<longleftrightarrow> s \<in> lang r"
  by (induction s arbitrary: r) (simp_all add: nullable_lang lang_deriv)

lemma star_cls: "w \<in> star {[c] |c. c \<in> S} \<longleftrightarrow> set w \<subseteq> S"
proof
  assume "w \<in> star {[c] |c. c \<in> S}"
  then show "set w \<subseteq> S" by (induction rule: star.induct) auto
next
  assume "set w \<subseteq> S"
  then show "w \<in> star {[c] |c. c \<in> S}"
  proof (induction w)
    case Nil
    show ?case by (rule star.star_empty)
  next
    case (Cons a w)
    then have "[a] \<in> {[c] |c. c \<in> S}" "w \<in> star {[c] |c. c \<in> S}" by auto
    then have "[a] @ w \<in> star {[c] |c. c \<in> S}" by (rule star.star_app)
    then show ?case by simp
  qed
qed

lemma lang_digit: "w \<in> lang digit \<longleftrightarrow> (\<exists>c. w = [c] \<and> decimal_digit c)"
  by (simp add: digit_def decimal_digit_def)

lemma nonzero_digit:
  "c \<in> set (units ''123456789'') \<longleftrightarrow> decimal_digit c \<and> c \<noteq> of_char CHR ''0''"
  unfolding decimal_digit_def units_def by auto

lemma star_digit: "v \<in> star (lang digit) \<longleftrightarrow> list_all decimal_digit v"
proof -
  have "lang digit = {[c] |c. c \<in> {c. decimal_digit c}}"
    by (simp add: digit_def decimal_digit_def)
  then show ?thesis
    by (simp only: star_cls list_all_iff) auto
qed

lemma lang_first_digit:
  "u \<in> lang (Cls ''123456789'') \<longleftrightarrow> (\<exists>c. u = [c] \<and> decimal_digit c \<and> c \<noteq> of_char CHR ''0'')"
  by (simp only: lang.simps mem_Collect_eq nonzero_digit)

lemma lang_zero: "u \<in> lang (Cls ''0'') \<longleftrightarrow> u = units ''0''"
  by (simp add: units_def)

lemma lang_point: "u \<in> lang (Cls ''.'') \<longleftrightarrow> u = units ''.''"
  by (simp add: units_def)

lemma conc_single:
  "(\<exists>u v. w = u @ v \<and> (\<exists>c. u = [c] \<and> P c) \<and> Q v) \<longleftrightarrow> (\<exists>c v. w = c # v \<and> P c \<and> Q v)"
proof
  assume "\<exists>u v. w = u @ v \<and> (\<exists>c. u = [c] \<and> P c) \<and> Q v"
  then show "\<exists>c v. w = c # v \<and> P c \<and> Q v" by auto
next
  assume "\<exists>c v. w = c # v \<and> P c \<and> Q v"
  then obtain c v where "w = c # v" "P c" "Q v" by blast
  then have "w = [c] @ v \<and> (\<exists>d. [c] = [d] \<and> P d) \<and> Q v" by simp
  then show "\<exists>u v. w = u @ v \<and> (\<exists>c. u = [c] \<and> P c) \<and> Q v" by blast
qed

lemma lang_integer_part:
  "ip \<in> lang (Alt (Cls ''0'') (Seq (Cls ''123456789'') (Star digit))) \<longleftrightarrow> spec_integer_part ip"
proof -
  have "ip \<in> lang (Alt (Cls ''0'') (Seq (Cls ''123456789'') (Star digit))) \<longleftrightarrow>
      ip = units ''0'' \<or>
      (\<exists>u v. ip = u @ v \<and> (\<exists>c. u = [c] \<and> decimal_digit c \<and> c \<noteq> of_char CHR ''0'') \<and>
         list_all decimal_digit v)"
    by (simp only: lang.simps(4,5,6) Un_iff mem_conc_iff lang_first_digit lang_zero star_digit)
  also have "\<dots> \<longleftrightarrow> spec_integer_part ip"
    unfolding spec_integer_part_def conc_single by blast
  finally show ?thesis .
qed

lemma lang_one_or_two_digits:
  "w \<in> lang (Seq digit (Opt digit)) \<longleftrightarrow> list_all decimal_digit w \<and> 1 \<le> length w \<and> length w \<le> 2"
proof -
  have "w \<in> lang (Seq digit (Opt digit)) \<longleftrightarrow>
      (\<exists>u v. w = u @ v \<and> (\<exists>c. u = [c] \<and> decimal_digit c) \<and>
         ((\<exists>c. v = [c] \<and> decimal_digit c) \<or> v = []))"
    by (simp only: lang.simps(2,4,5) Un_iff mem_conc_iff lang_digit singleton_iff)
  also have "\<dots> \<longleftrightarrow>
      (\<exists>c v. w = c # v \<and> decimal_digit c \<and> ((\<exists>c. v = [c] \<and> decimal_digit c) \<or> v = []))"
    by (rule conc_single)
  also have "\<dots> \<longleftrightarrow>
      (\<exists>c. w = [c] \<and> decimal_digit c) \<or> (\<exists>c d. w = [c, d] \<and> decimal_digit c \<and> decimal_digit d)"
    by auto
  also have "\<dots> \<longleftrightarrow> list_all decimal_digit w \<and> 1 \<le> length w \<and> length w \<le> 2"
  proof (cases w)
    case Nil
    then show ?thesis by simp
  next
    case (Cons a as)
    then show ?thesis by (cases as) auto
  qed
  finally show ?thesis .
qed

lemma lang_fraction:
  "w \<in> lang (Opt (Seq (Cls ''.'') (Seq digit (Opt digit)))) \<longleftrightarrow>
     w = [] \<or>
     (\<exists>fp. w = units ''.'' @ fp \<and> list_all decimal_digit fp \<and> 1 \<le> length fp \<and> length fp \<le> 2)"
proof -
  have "w \<in> lang (Opt (Seq (Cls ''.'') (Seq digit (Opt digit)))) \<longleftrightarrow>
      (\<exists>u v. w = u @ v \<and> u = units ''.'' \<and> v \<in> lang (Seq digit (Opt digit))) \<or> w = []"
    by (simp only: lang.simps(2) lang.simps(4) [of _ One] lang.simps(5) [of "Cls ''.''"]
        Un_iff mem_conc_iff lang_point singleton_iff)
  then show ?thesis
    unfolding lang_one_or_two_digits by auto
qed

lemma amount_re_grammar: "test amount_re s \<longleftrightarrow> spec_amount_grammar s"
proof -
  have "test amount_re s \<longleftrightarrow>
    (\<exists>ip w. s = ip @ w \<and> ip \<in> lang (Alt (Cls ''0'') (Seq (Cls ''123456789'') (Star digit))) \<and>
       w \<in> lang (Opt (Seq (Cls ''.'') (Seq digit (Opt digit)))))"
    unfolding test_lang amount_re_def lang.simps(5) mem_conc_iff ..
  also have "\<dots> \<longleftrightarrow> spec_amount_grammar s"
    unfolding lang_integer_part lang_fraction spec_amount_grammar_def by auto
  finally show ?thesis .
qed

lemma integer_part_digits: "spec_integer_part ip \<Longrightarrow> list_all decimal_digit ip"
  unfolding spec_integer_part_def by (auto simp: decimal_digit_def units_def)

lemma decimal_value_two_decimals:
  assumes "spec_amount_grammar s"
  shows "two_decimals (decimal_value s)"
proof -
  from assms obtain ip where ip: "spec_integer_part ip"
    and s: "s = ip \<or> (\<exists>fp. s = ip @ units ''.'' @ fp \<and> list_all decimal_digit fp
                       \<and> 1 \<le> length fp \<and> length fp \<le> 2)"
    unfolding spec_amount_grammar_def by blast
  from s show ?thesis
  proof
    assume "s = ip"
    with ip show ?thesis
      by (simp only: decimal_value_integer integer_part_digits two_decimals_nat)
  next
    assume "\<exists>fp. s = ip @ units ''.'' @ fp \<and> list_all decimal_digit fp
        \<and> 1 \<le> length fp \<and> length fp \<le> 2"
    then obtain fp where fp: "s = ip @ units ''.'' @ fp" "1 \<le> length fp" "length fp \<le> 2" by blast
    have "two_decimals (of_nat (digits_value ip) + of_nat (digits_value fp) / 10 ^ length fp)"
      using fp(2,3) by (intro two_decimals_add two_decimals_nat two_decimals_fraction)
    with ip fp(1) show ?thesis
      by (simp only: decimal_value_fraction integer_part_digits)
  qed
qed

lemma parse_amount_text:
  "parse_amount (AmountText v) =
     (if spec_amount_grammar (trim v) then Inr (toFixed2 (Number (trim v))) else Inl InvalidAmount)"
  by (simp add: parse_amount_def preprocess_amount_def amount_re_grammar)

lemma parse_amount_number:
  "parse_amount (AmountNumber str) =
     (if spec_amount_grammar (units str) then Inr (toFixed2 (Number (units str)))
      else Inl InvalidAmount)"
  by (simp add: parse_amount_def preprocess_amount_def amount_re_grammar)

text \<open>
  The normalized value of a literal whose value is below \<open>2\<^sup>4\<^sup>6\<close>: the double nearest to
  the value, which \<open>toFixed(2)\<close> leaves as it is.
\<close>

lemma normalized_literal:
  assumes "spec_amount_grammar s" and "decimal_value s < 2 ^ 46"
  shows "toFixed2 (Number s) = to_double (decimal_value s)"
proof -
  have "decimal2 (to_double (decimal_value s)) = decimal_value s"
    using decimal_value_two_decimals [OF assms(1)] decimal_value_nonneg assms(2)
    by (rule double_of_cents)
  then show ?thesis by (simp add: toFixed2_def Number_def)
qed

text \<open>
  A normalized amount is the double of a whole number of cents that is not negative, so
  the test \<open>amount < 0.01\<close> decides whether it is below one hundredth.
\<close>

lemma parse_amount_cents:
  assumes "parse_amount val = Inr a"
  shows "\<exists>z. a = to_double z \<and> two_decimals z \<and> 0 \<le> z"
proof -
  from assms obtain s where "a = toFixed2 (Number s)"
    by (auto simp: parse_amount_def split: option.splits if_splits)
  then have "a = to_double (decimal2 (to_double (decimal_value s)))"
    by (simp add: toFixed2_def Number_def)
  moreover have "0 \<le> decimal2 (to_double (decimal_value s))"
    by (intro decimal2_nonneg to_double_nonneg decimal_value_nonneg)
  ultimately show ?thesis using decimal2_two_decimals by blast
qed

lemma parse_amount_below_cent:
  assumes "parse_amount val = Inr a"
  shows "a < to_double (1 / 100) \<longleftrightarrow> a < 1 / 100"
proof -
  from parse_amount_cents [OF assms] obtain z where "a = to_double z" "two_decimals z" "0 \<le> z"
    by blast
  then show ?thesis using below_cent_iff by simp
qed

text \<open>
  C4, as amended. The handler removes white space at both ends of a textual amount first
  (\<open>val.trim()\<close>), so a text is accepted exactly when the trimmed text matches the grammar
  of amounts; every other text, every number whose rendering does not match (such as
  \<open>NaN\<close> or \<open>Infinity\<close>) and every other input fails with \<open>InvalidAmount\<close>. The literal
  \<open>ip\<close> or \<open>ip.fp\<close> has the value its digits denote, a whole number of cents. When that
  value is below \<open>2\<^sup>4\<^sup>6\<close> (70,368,744,177,664), the normalized amount is the double nearest
  to it, and that double stands for the value of the literal: rounded to two decimals it
  is that value. The handler of \<open>part_000\<close> takes numbers only: a finite amount \<open>r\<close> is
  normalized to the double of the two-decimal value nearest to \<open>r\<close>, which is at most half
  a cent from \<open>r\<close> and which, when below \<open>2\<^sup>4\<^sup>6\<close>, that double stands for; an amount that is
  not finite fails with \<open>InvalidAmount\<close>.
\<close>

theorem amount_accepted_iff_trimmed_grammar:
  "((\<exists>x. parse_amount (AmountText v) = Inr x) \<longleftrightarrow> spec_amount_grammar (trim v))
   \<and> (\<not> spec_amount_grammar (trim v) \<longrightarrow> parse_amount (AmountText v) = Inl InvalidAmount)
   \<and> (spec_amount_grammar (trim v) \<longrightarrow> two_decimals (decimal_value (trim v)))
   \<and> (spec_amount_grammar (trim v) \<and> decimal_value (trim v) < 2 ^ 46 \<longrightarrow>
          parse_amount (AmountText v) = Inr (to_double (decimal_value (trim v)))
          \<and> decimal2 (to_double (decimal_value (trim v))) = decimal_value (trim v))
   \<and> (\<forall>ip. spec_integer_part ip \<and> trim v = ip \<longrightarrow>
          decimal_value (trim v) = of_nat (digits_value ip))
   \<and> (\<forall>ip fp. spec_integer_part ip \<and> list_all decimal_digit fp \<and> 1 \<le> length fp \<and> length fp \<le> 2
          \<and> trim v = ip @ units ''.'' @ fp \<longrightarrow>
          decimal_value (trim v) = of_nat (digits_value ip) + of_nat (digits_value fp) / 10 ^ length fp)
   \<and> (\<not> spec_amount_grammar (units str) \<longrightarrow> parse_amount (AmountNumber str) = Inl InvalidAmount)
   \<and> parse_amount AmountOther = Inl InvalidAmount
   \<and> normalize_part_000 (Finite r) = Inr (to_double (decimal2 r))
   \<and> \<bar>decimal2 r - r\<bar> \<le> 1 / 200
   \<and> (0 \<le> r \<and> decimal2 r < 2 ^ 46 \<longrightarrow> decimal2 (to_double (decimal2 r)) = decimal2 r)
   \<and> ((\<forall>q. n \<noteq> Finite q) \<longrightarrow> normalize_part_000 n = Inl InvalidAmount)"
proof (intro conjI allI impI)
  show "(\<exists>x. parse_amount (AmountText v) = Inr x) \<longleftrightarrow> spec_amount_grammar (trim v)"
    by (simp add: parse_amount_text)
  show "parse_amount (AmountText v) = Inl InvalidAmount" if "\<not> spec_amount_grammar (trim v)"
    using that by (simp add: parse_amount_text)
  show "two_decimals (decimal_value (trim v))" if "spec_amount_grammar (trim v)"
    using that by (rule decimal_value_two_decimals)
  show "parse_amount (AmountText v) = Inr (to_double (decimal_value (trim v)))"
    if "spec_amount_grammar (trim v) \<and> decimal_value (trim v) < 2 ^ 46"
    using that by (simp add: parse_amount_text normalized_literal)
  show "decimal2 (to_double (decimal_value (trim v))) = decimal_value (trim v)"
    if "spec_amount_grammar (trim v) \<and> decimal_value (trim v) < 2 ^ 46"
    using that decimal_value_nonneg
    by (intro double_of_cents decimal_value_two_decimals) simp_all
  show "decimal_value (trim v) = of_nat (digits_value ip)"
    if "spec_integer_part ip \<and> trim v = ip" for ip
    using that by (simp add: decimal_value_integer integer_part_digits)
  show "decimal_value (trim v) = of_nat (digits_value ip) + of_nat (digits_value fp) / 10 ^ length fp"
    if "spec_integer_part ip \<and> list_all decimal_digit fp \<and> 1 \<le> length fp \<and> length fp \<le> 2
          \<and> trim v = ip @ units ''.'' @ fp" for ip fp
    using that by (simp only: decimal_value_fraction integer_part_digits)
  show "parse_amount (AmountNumber str) = Inl InvalidAmount" if "\<not> spec_amount_grammar (units str)"
    using that by (simp add: parse_amount_number)
  show "parse_amount AmountOther = Inl InvalidAmount"
    by (simp add: parse_amount_def preprocess_amount_def)
  show "normalize_part_000 (Finite r) = Inr (to_double (decimal2 r))"
    by (simp add: normalize_part_000_def toFixed2_def)
  show "\<bar>decimal2 r - r\<bar> \<le> 1 / 200"
    by (rule decimal2_nearest)
  show "decimal2 (to_double (decimal2 r)) = decimal2 r" if "0 \<le> r \<and> decimal2 r < 2 ^ 46"
    using that by (intro double_of_cents decimal2_two_decimals decimal2_nonneg) simp_all
  show "normalize_part_000 n = Inl InvalidAmount" if "\<forall>q. n \<noteq> Finite q"
    using that by (cases n) (simp_all add: normalize_part_000_def)
qed

lemmas amount_eval = parse_amount_def preprocess_amount_def trim_def is_space_def units_def
  amount_re_def digit_def Number_def decimal_value_def digits_value_def toFixed2_def
  decimal2_id two_decimals_def to_double_zero to_double_one to_double_numeral to_double_half
  to_double_cent

lemma trim_padded: "trim (units '' 1.5 '') = units ''1.5''"
  by (simp add: trim_def is_space_def units_def)

text \<open>A text padded with an ideographic space (U+3000) and a byte order mark (U+FEFF).\<close>

lemma trim_wide: "trim (12288 # units ''0.10'' @ [65279]) = units ''0.10''"
  by (simp add: trim_def is_space_def units_def)

theorem amount_accepted_iff_trimmed_grammar_witness:
  "spec_integer_part (units ''1'') \<and> list_all decimal_digit (units ''5'')
   \<and> trim (units '' 1.5 '') = units ''1'' @ units ''.'' @ units ''5''
   \<and> spec_amount_grammar (trim (units '' 1.5 ''))
   \<and> decimal_value (trim (units '' 1.5 '')) = 3 / 2 \<and> (3 / 2 :: rat) < 2 ^ 46
   \<and> parse_amount (AmountString '' 1.5 '') = Inr (3 / 2) \<and> decimal2 (3 / 2) = 3 / 2
   \<and> spec_amount_grammar (trim (12288 # units ''0.10'' @ [65279]))
   \<and> decimal_value (trim (12288 # units ''0.10'' @ [65279])) = 1 / 10
   \<and> parse_amount (AmountText (12288 # units ''0.10'' @ [65279])) = Inr (to_double (1 / 10))
   \<and> decimal2 (to_double (1 / 10)) = 1 / 10
   \<and> \<not> spec_amount_grammar (trim (units ''1.505''))
   \<and> parse_amount (AmountString ''1.505'') = Inl InvalidAmount
   \<and> \<not> spec_amount_grammar (units ''NaN'') \<and> parse_amount (AmountNumber ''NaN'') = Inl InvalidAmount
   \<and> spec_integer_part (units ''70'') \<and> trim (units ''70'') = units ''70''
   \<and> decimal_value (trim (units ''70'')) = 70 \<and> two_decimals (decimal_value (trim (units ''70'')))
   \<and> decimal2 (9 / 8) = 113 / 100
   \<and> normalize_part_000 (Finite (9 / 8)) = Inr (to_double (113 / 100))
   \<and> decimal2 (to_double (113 / 100)) = 113 / 100
   \<and> normalize_part_000 PosInfinity = Inl InvalidAmount"
proof -
  note t = amount_accepted_iff_trimmed_grammar
  let ?wide = "12288 # units ''0.10'' @ [65279]"
  have ip: "spec_integer_part (units ''1'')"
    by (simp add: spec_integer_part_def decimal_digit_def units_def)
  have fp: "list_all decimal_digit (units ''5'')" by (simp add: decimal_digit_def units_def)
  have tr: "trim (units '' 1.5 '') = units ''1'' @ units ''.'' @ units ''5''"
    by (simp add: trim_def is_space_def units_def)
  have len: "1 \<le> length (units ''5'') \<and> length (units ''5'') \<le> 2" by (simp add: units_def)
  have g: "spec_amount_grammar (trim (units '' 1.5 ''))"
    unfolding spec_amount_grammar_def using ip fp tr len by blast
  have "decimal_value (trim (units '' 1.5 '')) =
      of_nat (digits_value (units ''1'')) + of_nat (digits_value (units ''5'')) / 10 ^ length (units ''5'')"
    using t [of "units '' 1.5 ''"] ip fp tr len by blast
  then have d: "decimal_value (trim (units '' 1.5 '')) = 3 / 2"
    by (simp add: digits_value_def units_def)
  have small: "(3 / 2 :: rat) < 2 ^ 46" by simp
  then have lt: "decimal_value (trim (units '' 1.5 '')) < 2 ^ 46" unfolding d .
  have "parse_amount (AmountString '' 1.5 '') = Inr (to_double (decimal_value (trim (units '' 1.5 ''))))
      \<and> decimal2 (to_double (decimal_value (trim (units '' 1.5 '')))) = decimal_value (trim (units '' 1.5 ''))"
    using t [of "units '' 1.5 ''"] g lt by blast
  then have p: "parse_amount (AmountString '' 1.5 '') = Inr (3 / 2)" "decimal2 (3 / 2) = 3 / 2"
    unfolding d by (simp_all add: to_double_half)
  have gw: "spec_amount_grammar (trim ?wide)"
    unfolding trim_wide
    by (auto simp: spec_amount_grammar_def spec_integer_part_def decimal_digit_def units_def)
  have dw: "decimal_value (trim ?wide) = 1 / 10"
    unfolding trim_wide by (simp add: decimal_value_def digits_value_def units_def)
  have "(1 / 10 :: rat) < 2 ^ 46" by simp
  then have ltw: "decimal_value (trim ?wide) < 2 ^ 46" unfolding dw .
  have "parse_amount (AmountText ?wide) = Inr (to_double (decimal_value (trim ?wide)))
      \<and> decimal2 (to_double (decimal_value (trim ?wide))) = decimal_value (trim ?wide)"
    using t [of ?wide] gw ltw by blast
  then have pw: "parse_amount (AmountText ?wide) = Inr (to_double (1 / 10))"
      "decimal2 (to_double (1 / 10)) = 1 / 10"
    unfolding dw by simp_all
  have n1: "\<not> spec_amount_grammar (trim (units ''1.505''))"
    by (auto simp: trim_def is_space_def spec_amount_grammar_def spec_integer_part_def
        decimal_digit_def units_def Cons_eq_append_conv)
  have n2: "\<not> spec_amount_grammar (units ''NaN'')"
    by (auto simp: spec_amount_grammar_def spec_integer_part_def decimal_digit_def units_def)
  have r1: "parse_amount (AmountString ''1.505'') = Inl InvalidAmount"
    using t [of "units ''1.505''"] n1 by blast
  have r2: "parse_amount (AmountNumber ''NaN'') = Inl InvalidAmount"
    using t [of _ "''NaN''"] n2 by blast
  have ip70: "spec_integer_part (units ''70'')"
    by (simp add: spec_integer_part_def decimal_digit_def units_def)
  have tr70: "trim (units ''70'') = units ''70''"
    by (simp add: trim_def is_space_def units_def)
  have "decimal_value (trim (units ''70'')) = of_nat (digits_value (units ''70''))"
    using t [of "units ''70''"] ip70 tr70 by blast
  then have d70: "decimal_value (trim (units ''70'')) = 70"
    by (simp add: digits_value_def units_def)
  have "spec_amount_grammar (trim (units ''70''))"
    unfolding spec_amount_grammar_def tr70 using ip70 by blast
  then have td70: "two_decimals (decimal_value (trim (units ''70'')))"
    using t [of "units ''70''"] by blast
  have q: "decimal2 (9 / 8) = 113 / 100"
    by (simp add: decimal2_def)
  have "normalize_part_000 (Finite (9 / 8)) = Inr (to_double (decimal2 (9 / 8)))"
    using t [of _ _ "9 / 8"] by blast
  then have q1: "normalize_part_000 (Finite (9 / 8)) = Inr (to_double (113 / 100))"
    unfolding q .
  have "(0::rat) \<le> 9 / 8 \<and> (113 / 100 :: rat) < 2 ^ 46" by simp
  then have "0 \<le> (9 / 8 :: rat) \<and> decimal2 (9 / 8) < 2 ^ 46" unfolding q .
  then have "decimal2 (to_double (decimal2 (9 / 8))) = decimal2 (9 / 8)"
    using t [of _ _ "9 / 8"] by blast
  then have q2: "decimal2 (to_double (113 / 100)) = 113 / 100" unfolding q .
  have "\<forall>q. PosInfinity \<noteq> Finite q" by simp
  then have r3: "normalize_part_000 PosInfinity = Inl InvalidAmount"
    using t [of _ _ _ PosInfinity] by blast
  show ?thesis
    using ip fp tr g d small p gw dw pw n1 n2 r1 r2 ip70 tr70 d70 td70 q q1 q2 r3
    by (intro conjI)
qed

text \<open>
  The claim as first stated fails: \<open>" 1.5"\<close> begins with a space, so it does not match the
  grammar, and the handler accepts it.
\<close>

theorem padded_amount_accepted_counterexample:
  "\<not> spec_amount_grammar (units '' 1.5'') \<and> parse_amount (AmountString '' 1.5'') = Inr (3 / 2)"
proof
  show "\<not> spec_amount_grammar (units '' 1.5'')"
    by (auto simp: spec_amount_grammar_def spec_integer_part_def decimal_digit_def units_def)
  show "parse_amount (AmountString '' 1.5'') = Inr (3 / 2)"
    by (simp add: amount_eval)
qed

text \<open>
  From \<open>2\<^sup>4\<^sup>6\<close> on the doubles are more than a cent apart, and the normalized amount of an
  accepted literal need not stand for the value of the literal: \<open>90071992547409.93\<close> is
  normalized to the double \<open>90071992547409.9375\<close>, which \<open>toFixed(2)\<close> prints as
  \<open>90071992547409.94\<close>. A literal beyond the doubles is accepted as well, as \<open>Infinity\<close>.
\<close>

lemma to_double_above_cents:
  "to_double (9007199254740993 / 100) = 1441151880758559 / 16"
  "to_double (9007199254740994 / 100) = 1441151880758559 / 16"
  using to_double_scaled [of 6 "9007199254740993 / 100" 5764607523034236]
    to_double_scaled [of 6 "9007199254740994 / 100" 5764607523034236]
  by simp_all

lemma decimal2_above_cents: "decimal2 (1441151880758559 / 16) = 9007199254740994 / 100"
  by (rule decimal2_unique) (simp_all add: two_decimals_def)

lemma long_literal_normalized:
  "spec_amount_grammar (trim (units ''90071992547409.93''))
   \<and> decimal_value (trim (units ''90071992547409.93'')) = 9007199254740993 / 100
   \<and> parse_amount (AmountString ''90071992547409.93'') = Inr (1441151880758559 / 16)
   \<and> decimal2 (1441151880758559 / 16) = 9007199254740994 / 100"
proof -
  have tr: "trim (units ''90071992547409.93'') = units ''90071992547409.93''"
    by (simp add: trim_def is_space_def units_def)
  have g: "test amount_re (units ''90071992547409.93'')"
    by (simp add: amount_re_def digit_def units_def)
  have d: "decimal_value (units ''90071992547409.93'') = 9007199254740993 / 100"
    by (simp add: decimal_value_def digits_value_def units_def)
  have "parse_amount (AmountString ''90071992547409.93'') =
      Inr (toFixed2 (Number (units ''90071992547409.93'')))"
    using g by (simp add: parse_amount_def preprocess_amount_def tr)
  then have "parse_amount (AmountString ''90071992547409.93'') =
      Inr (to_double (decimal2 (to_double (9007199254740993 / 100))))"
    unfolding toFixed2_def Number_def d .
  then have "parse_amount (AmountString ''90071992547409.93'') = Inr (1441151880758559 / 16)"
    by (simp only: to_double_above_cents decimal2_above_cents)
  with g d show ?thesis
    by (simp only: tr amount_re_grammar decimal2_above_cents simp_thms)
qed

lemma huge_literal_infinity:
  assumes "spec_amount_grammar (trim v)" and "2 ^ 1024 - 2 ^ 970 \<le> decimal_value (trim v)"
  shows "parse_amount (AmountText v) = Inr (2 ^ 1024)"
proof -
  have "(0::rat) < 2 ^ 64" by simp
  with threshold_large assms(2) have pos: "0 < decimal_value (trim v)" by linarith
  from assms(2) pos have big: "2 ^ 1024 - 2 ^ 970 \<le> \<bar>decimal_value (trim v)\<bar>" by simp
  from pos have nz: "decimal_value (trim v) \<noteq> 0" "sgn (decimal_value (trim v)) = 1"
    by simp_all
  from big nz have n: "Number (trim v) = 2 ^ 1024"
    by (simp add: Number_def to_double_def)
  have "two_decimals ((2::rat) ^ 1024)"
    using two_decimals_nat [of "2 ^ 1024"] by simp
  then have "decimal2 ((2::rat) ^ 1024) = 2 ^ 1024" by (rule decimal2_id)
  then have "toFixed2 (Number (trim v)) = 2 ^ 1024"
    unfolding n toFixed2_def by (simp add: to_double_def)
  with assms(1) show ?thesis by (simp add: parse_amount_text)
qed

section \<open>Rejected funding requests\<close>

lemma sqlite_transaction_rollback: "sqlite_transaction fn s = (Inl e, s') \<Longrightarrow> s' = s"
  by (auto simp: sqlite_transaction_def split: sum.splits prod.splits)

lemma fund_finish_failure: "fund_finish f clk p s = (Inl e, s') \<Longrightarrow> s' = s"
  by (auto simp: fund_finish_def split: option.splits if_splits dest: sqlite_transaction_rollback)

lemma fundAccount_failure: "fundAccount f clk s userId inp = (Inl e, s') \<Longrightarrow> s' = s"
  by (auto simp: fundAccount_def split: sum.splits dest: fund_finish_failure)

text \<open>
  C5, as amended. Input validation runs before the handler, so the check of the minimum
  amount is reached only by an input that passed it: every input that passes validation
  and whose normalized amount is below 0.01 fails with \<open>AmountTooSmall\<close>. Every failing
  call, whatever the failure, leaves the store exactly as it was: no ledger entry, no
  balance change.
\<close>

theorem validated_small_amount_rejected:
  "(\<forall>v. fund_schema inp = Inr v \<and> v_amount v < 1 / 100 \<longrightarrow>
       fundAccount f clk s userId inp = (Inl AmountTooSmall, s))
   \<and> (\<forall>e s'. fundAccount f clk s userId inp = (Inl e, s') \<longrightarrow> s' = s)"
proof (intro conjI allI impI)
  show "fundAccount f clk s userId inp = (Inl AmountTooSmall, s)"
    if "fund_schema inp = Inr v \<and> v_amount v < 1 / 100" for v
  proof -
    have "(1 / 100 :: rat) < to_double (1 / 100)" by (simp add: to_double_cent)
    with that have "v_amount v < to_double (1 / 100)" by linarith
    with that show ?thesis by (simp add: fundAccount_def fund_begin_def)
  qed
  show "s' = s" if "fundAccount f clk s userId inp = (Inl e, s')" for e s'
    using that by (rule fundAccount_failure)
qed

lemma parse_zero: "parse_amount (AmountString ''0.00'') = Inr 0"
  by (simp add: amount_eval)

theorem validated_small_amount_rejected_witness:
  "fund_schema \<lparr>in_accountId = 1, in_amount = AmountString ''0.00'', in_fundingSource = card\<rparr> =
     Inr \<lparr>v_accountId = 1, v_amount = 0, v_fundingSource = card\<rparr>
   \<and> fundAccount NoFault demo_clock demo_store 2
        \<lparr>in_accountId = 1, in_amount = AmountString ''0.00'', in_fundingSource = card\<rparr> =
      (Inl AmountTooSmall, demo_store)
   \<and> fundAccount FailUpdate demo_clock demo_store 2
        \<lparr>in_accountId = 1, in_amount = AmountString ''2.50'', in_fundingSource = card\<rparr> =
      (Inl InternalError, demo_store)"
proof -
  let ?small = "\<lparr>in_accountId = 1, in_amount = AmountString ''0.00'', in_fundingSource = card\<rparr>"
  let ?ok = "\<lparr>in_accountId = 1, in_amount = AmountString ''2.50'', in_fundingSource = card\<rparr>"
  have v: "fund_schema ?small = Inr \<lparr>v_accountId = 1, v_amount = 0, v_fundingSource = card\<rparr>"
    by (simp add: fund_schema_def parse_zero check_fundingSource_def card_def)
  have small: "fundAccount NoFault demo_clock demo_store 2 ?small = (Inl AmountTooSmall, demo_store)"
    using validated_small_amount_rejected [of ?small NoFault demo_clock demo_store 2] v by simp
  have "fst (fundAccount FailUpdate demo_clock demo_store 2 ?ok) = Inl InternalError"
    by (simp add: fundAccount_def fund_begin_def fund_schema_def amount_eval
        check_fundingSource_def card_def
        select_account_def demo_store_def demo_account_def fund_finish_def
        sqlite_transaction_def txn_def Let_def)
  then obtain s' where r: "fundAccount FailUpdate demo_clock demo_store 2 ?ok = (Inl InternalError, s')"
    by (cases "fundAccount FailUpdate demo_clock demo_store 2 ?ok") simp
  then have "s' = demo_store"
    using validated_small_amount_rejected [of ?ok FailUpdate demo_clock demo_store 2] by blast
  with r v small show ?thesis by simp
qed

text \<open>
  The claim as first stated fails: the amount \<open>0.00\<close> sent with a bank source that has no
  routing number is rejected by the validation of the funding source, not as too small.
\<close>

theorem small_amount_bad_source_counterexample:
  "parse_amount (AmountString ''0.00'') = Inr 0
   \<and> fundAccount NoFault demo_clock demo_store 2
        \<lparr>in_accountId = 1, in_amount = AmountString ''0.00'',
         in_fundingSource = \<lparr>fs_type = ''bank'', fs_accountNumber = ''12345678'', fs_routingNumber = None\<rparr>\<rparr> =
      (Inl InvalidFundingSource, demo_store)"
  by (simp add: parse_zero fundAccount_def fund_begin_def fund_schema_def check_fundingSource_def)

section \<open>Account numbers\<close>

lemma toString_digit: "n < 10 \<Longrightarrow> toString n = [digit_char n]"
  by (simp add: toString.simps)

lemma toString_step: "10 \<le> n \<Longrightarrow> toString n = toString (n div 10) @ [digit_char (n mod 10)]"
  by (subst toString.simps) simp

lemma digit_char_cases:
  assumes "d < (10::nat)"
  shows "d = 0 \<or> d = 1 \<or> d = 2 \<or> d = 3 \<or> d = 4 \<or> d = 5 \<or> d = 6 \<or> d = 7 \<or> d = 8 \<or> d = 9"
  using assms by presburger

lemma is_digit_digit_char: "d < 10 \<Longrightarrow> is_digit (digit_char d)"
  using digit_char_cases [of d] by (auto simp: is_digit_def digit_char_def)

lemma digit_val_digit_char: "d < 10 \<Longrightarrow> digit_val (digit_char d) = d"
  using digit_char_cases [of d] by (auto simp: digit_val_def digit_char_def)

lemma toString_digits: "list_all is_digit (toString n)"
proof (induction n rule: toString.induct)
  case (1 n)
  show ?case
  proof (cases "n < 10")
    case True
    then show ?thesis by (simp add: toString_digit is_digit_digit_char)
  next
    case False
    then have "list_all is_digit (toString (n div 10))" by (rule 1)
    with False show ?thesis by (simp add: toString_step is_digit_digit_char)
  qed
qed

lemma toString_length: "10 ^ k \<le> n \<Longrightarrow> n < 10 ^ Suc k \<Longrightarrow> length (toString n) = Suc k"
proof (induction k arbitrary: n)
  case 0
  then show ?case by (simp add: toString_digit)
next
  case (Suc k)
  from Suc.prems have ge: "10 \<le> n"
    using order_trans [of 10 "10 ^ Suc k" n] by simp
  from Suc.prems have "10 * 10 ^ k \<le> n" "n < 10 * 10 ^ Suc k" by simp_all
  then have "10 ^ k \<le> n div 10" "n div 10 < 10 ^ Suc k"
    by linarith+
  then have "length (toString (n div 10)) = Suc k" by (rule Suc.IH)
  with ge show ?case by (simp add: toString_step)
qed

lemma digits_val_snoc: "digits_val (ds @ [c]) = 10 * digits_val ds + digit_val c"
  by (simp add: digits_val_def)

lemma digits_val_toString: "digits_val (toString n) = n"
proof (induction n rule: toString.induct)
  case (1 n)
  show ?case
  proof (cases "n < 10")
    case True
    then show ?thesis by (simp add: toString_digit digits_val_def digit_val_digit_char)
  next
    case False
    then have "digits_val (toString (n div 10)) = n div 10" by (rule 1)
    with False show ?thesis by (simp add: toString_step digits_val_snoc digit_val_digit_char)
  qed
qed

lemma generateAccountNumber_toString:
  "\<exists>n. generateAccountNumber buffer = toString n \<and> 1000000000 \<le> n \<and> n \<le> 9999999999"
proof -
  let ?n = "readUIntBE buffer mod 9000000000 + 1000000000"
  have "readUIntBE buffer mod 9000000000 < 9000000000" by simp
  then have "generateAccountNumber buffer = toString ?n \<and> 1000000000 \<le> ?n \<and> ?n \<le> 9999999999"
    by (simp add: generateAccountNumber_def)
  then show ?thesis ..
qed

lemma uniqueAccountNumber_find:
  "uniqueAccountNumber rows draws =
     map_option generateAccountNumber
       (find (\<lambda>buffer. generateAccountNumber buffer \<notin> acc_accountNumber ` set rows) draws)"
proof (induction draws)
  case Nil
  show ?case by simp
next
  case (Cons buffer draws)
  have "find (\<lambda>a. acc_accountNumber a = generateAccountNumber buffer) rows = None \<longleftrightarrow>
      generateAccountNumber buffer \<notin> acc_accountNumber ` set rows"
    by (force simp: find_None_iff)
  with Cons show ?case by (simp add: Let_def)
qed

text \<open>
  C7, as amended. Every account number the allocator draws is a string of ten decimal digits
  whose value lies between 1,000,000,000 and 9,999,999,999. On a collision with an existing
  account number the loop draws again, and it returns the number of the first draw that no
  existing account has. The loop has no retry ceiling and no failure of its own: while the
  draws collide it goes on, and it has not returned as long as every draw so far collided.
\<close>

theorem account_number_allocation:
  "length (generateAccountNumber buffer) = 10
   \<and> list_all is_digit (generateAccountNumber buffer)
   \<and> 1000000000 \<le> digits_val (generateAccountNumber buffer)
   \<and> digits_val (generateAccountNumber buffer) \<le> 9999999999
   \<and> uniqueAccountNumber rows draws =
       map_option generateAccountNumber
         (find (\<lambda>buffer. generateAccountNumber buffer \<notin> acc_accountNumber ` set rows) draws)"
proof -
  obtain n where n: "generateAccountNumber buffer = toString n" "1000000000 \<le> n" "n \<le> 9999999999"
    using generateAccountNumber_toString by blast
  from n(2,3) have "10 ^ 9 \<le> n" "n < 10 ^ Suc 9" by simp_all
  then have "length (toString n) = Suc 9" by (rule toString_length)
  with n show ?thesis
    by (simp add: toString_digits digits_val_toString uniqueAccountNumber_find)
qed

lemma generateAccountNumber_1: "generateAccountNumber colliding_draw = ''1000000001''"
  by (simp add: colliding_draw_def generateAccountNumber_def readUIntBE_def toString_digit
      toString_step digit_char_def)

lemma generateAccountNumber_2: "generateAccountNumber fresh_draw = ''1000000002''"
  by (simp add: fresh_draw_def generateAccountNumber_def readUIntBE_def toString_digit
      toString_step digit_char_def)

theorem account_number_allocation_witness:
  "length (generateAccountNumber fresh_draw) = 10
   \<and> digits_val (generateAccountNumber fresh_draw) = 1000000002
   \<and> uniqueAccountNumber [demo_account] [colliding_draw, colliding_draw, fresh_draw] =
       Some ''1000000002''
   \<and> uniqueAccountNumber [demo_account] [colliding_draw, colliding_draw] = None"
proof -
  have a: "length (generateAccountNumber fresh_draw) = 10"
    using account_number_allocation [of "fresh_draw"] by blast
  have b: "digits_val (generateAccountNumber fresh_draw) = 1000000002"
    by (simp add: generateAccountNumber_2 digits_val_def digit_val_def)
  have c: "uniqueAccountNumber [demo_account] [colliding_draw, colliding_draw, fresh_draw] =
       Some ''1000000002''"
    by (simp add: account_number_allocation generateAccountNumber_1 generateAccountNumber_2
        demo_account_def)
  have d: "uniqueAccountNumber [demo_account] [colliding_draw, colliding_draw] = None"
    by (simp add: account_number_allocation generateAccountNumber_1 demo_account_def)
  from a b c d show ?thesis by (intro conjI)
qed

lemma uniqueAccountNumber_replicate:
  "generateAccountNumber buffer \<in> acc_accountNumber ` set rows \<Longrightarrow>
     uniqueAccountNumber rows (replicate k buffer @ draws) = uniqueAccountNumber rows draws"
  by (induction k) (simp_all add: uniqueAccountNumber_find)

text \<open>
  The claim as first stated fails: when the first hundred draws collide with the number of
  an existing account and the next one does not, \<open>createAccount\<close> does not fail after the
  hundredth attempt; it creates the account with the number of draw 101.
\<close>

theorem no_retry_ceiling_counterexample:
  "generateAccountNumber colliding_draw = acc_accountNumber demo_account
   \<and> map_option fst
       (createAccount demo_store 1 Savings (replicate 100 colliding_draw @ [fresh_draw]) demo_clock) =
     Some (Inr \<lparr>acc_id = 2, acc_userId = 1, acc_accountNumber = ''1000000002'',
                 acc_accountType = Savings, acc_balance = 0, acc_status = ''active'',
                 acc_createdAt = ''2026-11-02 09:30:00''\<rparr>)"
proof -
  have "generateAccountNumber colliding_draw \<in> acc_accountNumber ` set (accounts demo_store)"
    by (simp add: generateAccountNumber_1 demo_store_def demo_account_def)
  then have "uniqueAccountNumber (accounts demo_store) (replicate 100 colliding_draw @ [fresh_draw]) =
      uniqueAccountNumber (accounts demo_store) [fresh_draw]"
    by (rule uniqueAccountNumber_replicate)
  also have "\<dots> = Some ''1000000002''"
    by (simp add: generateAccountNumber_2 demo_store_def demo_account_def)
  finally show ?thesis
    by (simp add: createAccount_def generateAccountNumber_1 demo_store_def demo_account_def
        insert_account_def next_rowid_def demo_clock_def)
qed

section \<open>The ownership guard\<close>

lemma find_foreign:
  assumes "\<forall>a \<in> set rows. acc_id a = x \<longrightarrow> acc_userId a \<noteq> userId"
  shows "find (\<lambda>a. acc_id a = x \<and> acc_userId a = userId) rows = None"
  using assms by (auto simp: find_None_iff)

lemma fundAccount_unknown:
  assumes "select_account s (in_accountId inp) userId = None"
  shows "fundAccount f clk s userId inp =
     (case fund_begin s userId inp of Inl e \<Rightarrow> (Inl e, s) | Inr p \<Rightarrow> (Inl AccountNotFound, s))"
  using assms
  by (auto simp: fundAccount_def fund_begin_def fund_finish_def fund_schema_def split: sum.splits if_splits)

lemma fund_begin_unknown:
  "(case fund_begin s userId \<lparr>in_accountId = x, in_amount = amt, in_fundingSource = fs\<rparr> of
      Inl e \<Rightarrow> (Inl e, s) | Inr p \<Rightarrow> (Inl AccountNotFound, s)) =
   (case parse_amount amt of
      Inl e \<Rightarrow> (Inl e, s)
    | Inr a \<Rightarrow> if \<not> check_fundingSource fs then (Inl InvalidFundingSource, s)
               else if a < to_double (1 / 100) then (Inl AmountTooSmall, s)
               else (Inl AccountNotFound, s))"
  by (simp add: fund_begin_def fund_schema_def split: sum.splits)

text \<open>
  C6. An account id that exists but belongs to another user is treated by \<open>fundAccount\<close> and
  by \<open>getTransactions\<close> exactly as an id that no account has: the two funding calls return
  the same result and leave the same store, which is \<open>AccountNotFound\<close> as soon as the
  request passes the checks made before the lookup, and both listings fail with
  \<open>AccountNotFound\<close>.
\<close>

theorem not_owned_fails_as_nonexistent:
  assumes "\<exists>a \<in> set (accounts s). acc_id a = x"
    and "\<forall>a \<in> set (accounts s). acc_id a = x \<longrightarrow> acc_userId a \<noteq> userId"
    and "\<forall>a \<in> set (accounts s). acc_id a \<noteq> y"
  shows "fundAccount f clk s userId \<lparr>in_accountId = x, in_amount = amt, in_fundingSource = fs\<rparr> =
           fundAccount f clk s userId \<lparr>in_accountId = y, in_amount = amt, in_fundingSource = fs\<rparr>
       \<and> (\<forall>a. parse_amount amt = Inr a \<and> \<not> a < 1 / 100 \<and> check_fundingSource fs \<longrightarrow>
             fundAccount f clk s userId \<lparr>in_accountId = x, in_amount = amt, in_fundingSource = fs\<rparr> =
               (Inl AccountNotFound, s))
       \<and> getTransactions s userId x = Inl AccountNotFound
       \<and> getTransactions s userId y = Inl AccountNotFound"
proof -
  have nx: "select_account s x userId = None"
    unfolding select_account_def using assms(2) by (rule find_foreign)
  have ny: "select_account s y userId = None"
    unfolding select_account_def using assms(3) by (auto simp: find_None_iff)
  have fx: "fundAccount f clk s userId \<lparr>in_accountId = x, in_amount = amt, in_fundingSource = fs\<rparr> =
     (case parse_amount amt of
        Inl e \<Rightarrow> (Inl e, s)
      | Inr a \<Rightarrow> if \<not> check_fundingSource fs then (Inl InvalidFundingSource, s)
               else if a < to_double (1 / 100) then (Inl AmountTooSmall, s)
               else (Inl AccountNotFound, s))"
    using nx by (simp only: fundAccount_unknown fund_begin_unknown fund_input.simps)
  have fy: "fundAccount f clk s userId \<lparr>in_accountId = y, in_amount = amt, in_fundingSource = fs\<rparr> =
     (case parse_amount amt of
        Inl e \<Rightarrow> (Inl e, s)
      | Inr a \<Rightarrow> if \<not> check_fundingSource fs then (Inl InvalidFundingSource, s)
               else if a < to_double (1 / 100) then (Inl AmountTooSmall, s)
               else (Inl AccountNotFound, s))"
    using ny by (simp only: fundAccount_unknown fund_begin_unknown fund_input.simps)
  have valid: "\<forall>a. parse_amount amt = Inr a \<and> \<not> a < 1 / 100 \<and> check_fundingSource fs \<longrightarrow>
      fundAccount f clk s userId \<lparr>in_accountId = x, in_amount = amt, in_fundingSource = fs\<rparr> =
        (Inl AccountNotFound, s)"
    unfolding fx using parse_amount_below_cent [of amt] by simp
  have "getTransactions s userId x = Inl AccountNotFound"
      "getTransactions s userId y = Inl AccountNotFound"
    using nx ny by (simp_all add: getTransactions_def)
  with valid show ?thesis
    unfolding fx fy by (intro conjI refl)
qed

theorem not_owned_fails_as_nonexistent_witness:
  "map acc_id (accounts demo_store) = [1]
   \<and> map acc_userId (accounts demo_store) = [2]
   \<and> fundAccount NoFault demo_clock demo_store 1
         \<lparr>in_accountId = 1, in_amount = AmountString ''2.50'', in_fundingSource = card\<rparr>
       = (Inl AccountNotFound, demo_store)
   \<and> fundAccount NoFault demo_clock demo_store 1
         \<lparr>in_accountId = 7, in_amount = AmountString ''2.50'', in_fundingSource = card\<rparr>
       = (Inl AccountNotFound, demo_store)
   \<and> getTransactions demo_store 1 1 = Inl AccountNotFound
   \<and> getTransactions demo_store 1 7 = Inl AccountNotFound"
proof -
  have h1: "\<exists>a \<in> set (accounts demo_store). acc_id a = 1"
    and h2: "\<forall>a \<in> set (accounts demo_store). acc_id a = 1 \<longrightarrow> acc_userId a \<noteq> 1"
    and h3: "\<forall>a \<in> set (accounts demo_store). acc_id a \<noteq> 7"
    by (simp_all add: demo_store_def demo_account_def)
  have v: "parse_amount (AmountString ''2.50'') = Inr (5 / 2) \<and> \<not> (5 / 2 :: rat) < 1 / 100
      \<and> check_fundingSource card"
    by (simp add: amount_eval check_fundingSource_def card_def)
  note t = not_owned_fails_as_nonexistent [OF h1 h2 h3, of NoFault demo_clock "AmountString ''2.50''" card]
  let ?x = "fundAccount NoFault demo_clock demo_store 1
         \<lparr>in_accountId = 1, in_amount = AmountString ''2.50'', in_fundingSource = card\<rparr>"
  let ?y = "fundAccount NoFault demo_clock demo_store 1
         \<lparr>in_accountId = 7, in_amount = AmountString ''2.50'', in_fundingSource = card\<rparr>"
  have e: "?x = ?y" using t by (rule conjunct1)
  have fx: "?x = (Inl AccountNotFound, demo_store)" using t v by blast
  have fy: "?y = (Inl AccountNotFound, demo_store)" by (rule trans [OF e [symmetric] fx])
  have g: "getTransactions demo_store 1 1 = Inl AccountNotFound"
      "getTransactions demo_store 1 7 = Inl AccountNotFound"
    using t by blast+
  have ids: "map acc_id (accounts demo_store) = [1]" "map acc_userId (accounts demo_store) = [2]"
    by (simp_all add: demo_store_def demo_account_def)
  show ?thesis
    using ids fx fy g by (intro conjI)
qed

section \<open>Listing transactions\<close>

lemma fold_max_ge: "seq \<le> fold max ids (seq :: nat)"
  by (induction ids arbitrary: seq) (auto intro: order_trans [OF max.cobounded2])

lemma fold_max_mem: "x \<in> set ids \<Longrightarrow> x \<le> fold max ids (seq :: nat)"
proof (induction ids arbitrary: seq)
  case Nil
  then show ?case by simp
next
  case (Cons a ids)
  show ?case
  proof (cases "x = a")
    case True
    have "a \<le> max a seq" by simp
    also have "\<dots> \<le> fold max ids (max a seq)" by (rule fold_max_ge)
    finally show ?thesis using True by simp
  next
    case False
    with Cons.prems have "x \<in> set ids" by simp
    then show ?thesis by (simp add: Cons.IH)
  qed
qed

lemma next_rowid_fresh: "next_rowid seq ids \<notin> set ids"
proof
  assume "next_rowid seq ids \<in> set ids"
  then have "next_rowid seq ids \<le> fold max ids seq" by (rule fold_max_mem)
  then show False by (simp add: next_rowid_def)
qed

lemma find_append_eq:
  "find P (xs @ ys) = (case find P xs of Some a \<Rightarrow> Some a | None \<Rightarrow> find P ys)"
  by (induction xs) simp_all

lemma createAccount_effect:
  assumes "createAccount s userId accountType draws clk = Some (r, s')"
  shows "transactions s' = transactions s \<and> users s' = users s \<and> sessions s' = sessions s
    \<and> (s' = s \<or> (\<exists>a. accounts s' = accounts s @ [a] \<and> acc_id a \<notin> acc_id ` set (accounts s)
          \<and> acc_balance a = 0))"
  using assms next_rowid_fresh [of "seq_accounts s" "map acc_id (accounts s)"]
  by (auto simp: createAccount_def insert_account_def Let_def split: option.splits)

lemma exec_not_fund:
  assumes "\<not> is_fund x" and "exec x s = Some s'"
  shows "transactions s' = transactions s
    \<and> (s' = s \<or> (\<exists>a. accounts s' = accounts s @ [a] \<and> acc_id a \<notin> acc_id ` set (accounts s)))"
proof (cases x)
  case (CreateAccount userId accountType draws clk)
  with assms(2) obtain r where "createAccount s userId accountType draws clk = Some (r, s')"
    by auto
  then show ?thesis using createAccount_effect by blast
qed (use assms in auto)

lemma exec_all_not_fund:
  assumes "\<not> list_ex is_fund xs" and "exec_all xs s = Some s'"
  shows "transactions s' = transactions s \<and> (\<exists>added. accounts s' = accounts s @ added)"
  using assms
proof (induction xs arbitrary: s)
  case Nil
  then show ?case by simp
next
  case (Cons x xs)
  from Cons.prems obtain s1 where s1: "exec x s = Some s1" "exec_all xs s1 = Some s'"
    by (auto split: option.splits)
  from Cons.prems have nf: "\<not> is_fund x" "\<not> list_ex is_fund xs" by simp_all
  from exec_not_fund [OF nf(1) s1(1)]
  have a: "transactions s1 = transactions s" "\<exists>added. accounts s1 = accounts s @ added"
    by auto
  from Cons.IH [OF nf(2) s1(2)]
  have b: "transactions s' = transactions s1" "\<exists>added. accounts s' = accounts s1 @ added"
    by auto
  from a b show ?case by auto
qed

lemma find_id_owner:
  assumes "distinct (map acc_id rows)"
    and "find (\<lambda>a. acc_id a = x \<and> acc_userId a = u) rows = Some account"
  shows "find (\<lambda>a. acc_id a = x) rows = Some account"
  using assms
proof (induction rows)
  case Nil
  then show ?case by simp
next
  case (Cons a rows)
  show ?case
  proof (cases "acc_id a = x")
    case True
    show ?thesis
    proof (cases "acc_userId a = u")
      case True
      with \<open>acc_id a = x\<close> Cons.prems show ?thesis by simp
    next
      case False
      with True Cons.prems have "find (\<lambda>a. acc_id a = x \<and> acc_userId a = u) rows = Some account"
        by simp
      then have mem: "account \<in> set rows" and idx: "acc_id account = x"
        by (auto simp: find_Some_iff)
      have "acc_id a \<notin> acc_id ` set rows" using Cons.prems(1) by simp
      moreover have "acc_id account \<in> acc_id ` set rows" using mem by (rule imageI)
      ultimately have False using True idx by simp
      then show ?thesis ..
    qed
  next
    case False
    with Cons show ?thesis by simp
  qed
qed

lemma getTransactions_owned:
  assumes "select_account s accountId userId = Some account"
    and "distinct (map acc_id (accounts s))"
  shows "getTransactions s userId accountId =
     Inr (map (\<lambda>t. (t, Some (acc_accountType account)))
            (filter (\<lambda>t. txn_accountId t = accountId) (transactions s)))"
proof -
  have "find (\<lambda>a. acc_id a = accountId) (accounts s) = Some account"
    using assms unfolding select_account_def by (intro find_id_owner)
  then show ?thesis
    using assms(1) by (simp add: getTransactions_def cong: map_cong)
qed

lemma getTransactions_extended:
  assumes "select_account s accountId userId = Some account"
    and "transactions s' = transactions s" and "accounts s' = accounts s @ added"
  shows "getTransactions s' userId accountId = getTransactions s userId accountId"
proof -
  from assms(1) have "acc_id account = accountId" "account \<in> set (accounts s)"
    unfolding select_account_def by (auto simp: find_Some_iff)
  then have "find (\<lambda>a. acc_id a = accountId) (accounts s) \<noteq> None"
    by (auto simp: find_None_iff)
  then obtain a where a: "find (\<lambda>a. acc_id a = accountId) (accounts s) = Some a" by blast
  from assms show ?thesis
    by (simp add: getTransactions_def select_account_def find_append_eq a cong: map_cong)
qed

text \<open>
  C9. For an account the caller owns, \<open>getTransactions\<close> returns every ledger entry of the
  account, in rowid order, each with the type of that account (account ids being unique, as
  the primary key makes them). A second call, after any sequence of core operations none
  of which is a funding call, returns the same sequence.
\<close>

theorem getTransactions_all_entries_and_repeatable:
  assumes "select_account s accountId userId = Some account"
    and "distinct (map acc_id (accounts s))"
  shows "getTransactions s userId accountId =
           Inr (map (\<lambda>t. (t, Some (acc_accountType account)))
                  (filter (\<lambda>t. txn_accountId t = accountId) (transactions s)))
       \<and> (\<forall>xs s'. \<not> list_ex is_fund xs \<and> exec_all xs s = Some s' \<longrightarrow>
             getTransactions s' userId accountId = getTransactions s userId accountId)"
proof (intro conjI allI impI)
  show "getTransactions s userId accountId =
           Inr (map (\<lambda>t. (t, Some (acc_accountType account)))
                  (filter (\<lambda>t. txn_accountId t = accountId) (transactions s)))"
    using assms by (rule getTransactions_owned)
  show "getTransactions s' userId accountId = getTransactions s userId accountId"
    if "\<not> list_ex is_fund xs \<and> exec_all xs s = Some s'" for xs s'
  proof -
    from that exec_all_not_fund [of xs s s']
    obtain added where "transactions s' = transactions s" "accounts s' = accounts s @ added"
      by blast
    with assms(1) show ?thesis by (rule getTransactions_extended)
  qed
qed

theorem getTransactions_all_entries_and_repeatable_witness:
  "select_account demo_store 1 2 = Some demo_account
   \<and> distinct (map acc_id (accounts demo_store))
   \<and> getTransactions demo_store 2 1 = Inr [(demo_row, Some Checking)]
   \<and> \<not> list_ex is_fund [ListAccounts 2, CreateAccount 1 Savings [fresh_draw] demo_clock,
          ListTransactions 2 1]
   \<and> (\<exists>s'. exec_all [ListAccounts 2, CreateAccount 1 Savings [fresh_draw] demo_clock,
          ListTransactions 2 1] demo_store = Some s'
        \<and> length (accounts s') = 2
        \<and> getTransactions s' 2 1 = Inr [(demo_row, Some Checking)])"
proof -
  let ?xs = "[ListAccounts 2, CreateAccount 1 Savings [fresh_draw] demo_clock, ListTransactions 2 1]"
  have h1: "select_account demo_store 1 2 = Some demo_account"
    by (simp add: select_account_def demo_store_def demo_account_def)
  have h2: "distinct (map acc_id (accounts demo_store))"
    by (simp add: demo_store_def)
  note t = getTransactions_all_entries_and_repeatable [OF h1 h2]
  have g: "getTransactions demo_store 2 1 = Inr [(demo_row, Some Checking)]"
    using t by (simp add: demo_store_def demo_row_def demo_account_def)
  have nf: "\<not> list_ex is_fund ?xs" by simp
  have "\<exists>s'. exec_all ?xs demo_store = Some s' \<and> length (accounts s') = 2"
    by (simp add: createAccount_def generateAccountNumber_2 demo_store_def demo_account_def
        insert_account_def Let_def)
  then obtain s' where s': "exec_all ?xs demo_store = Some s'" "length (accounts s') = 2"
    by blast
  with t nf have "getTransactions s' 2 1 = getTransactions demo_store 2 1" by blast
  with g have "getTransactions s' 2 1 = Inr [(demo_row, Some Checking)]" by simp
  with s' have "\<exists>s'. exec_all ?xs demo_store = Some s' \<and> length (accounts s') = 2
      \<and> getTransactions s' 2 1 = Inr [(demo_row, Some Checking)]" by blast
  with h1 h2 g nf show ?thesis by (intro conjI)
qed

section \<open>What a funding call changes\<close>

lemma list_all2_map_self: "(\<And>x. x \<in> set xs \<Longrightarrow> P x (g x)) \<Longrightarrow> list_all2 P xs (map g xs)"
  by (induction xs) simp_all

lemma funded_only_rows:
  "list_all2 (\<lambda>a a'. a' = a\<lparr>acc_balance := acc_balance a'\<rparr> \<and> (acc_id a = X \<or> a' = a)) rows
     (map (\<lambda>a. if acc_id a = X then a\<lparr>acc_balance := g a\<rparr> else a) rows)"
  by (rule list_all2_map_self) simp

lemma funded_only_add:
  "funded_only s (add_to_balance (insert_transaction s X amount d c p) amount X) X"
  unfolding funded_only_def
  by (simp add: add_to_balance_def insert_transaction_def Let_def funded_only_rows)

lemma funded_only_set:
  "funded_only s (set_balance (insert_transaction s X amount d c p) b X) X"
  unfolding funded_only_def
  by (simp add: set_balance_def insert_transaction_def Let_def funded_only_rows)

lemma txn_success:
  assumes "txn f clk input s = Inr (r, s')"
  shows "s' = add_to_balance (insert_transaction s (v_accountId input) (v_amount input)
           (''Funding from '' @ fs_type (v_fundingSource input)) (toISOString clk)
           (Some (toISOString clk))) (v_amount input) (v_accountId input)"
  using assms by (auto simp: txn_def Let_def split: if_splits option.splits)

lemma fund_begin_accountId: "fund_begin s userId inp = Inr p \<Longrightarrow> v_accountId (p_input p) = in_accountId inp"
  by (auto simp: fund_begin_def fund_schema_def split: sum.splits if_splits)

lemma fundAccount_success:
  assumes "fundAccount f clk s userId inp = (Inr r, s')"
  shows "\<exists>input. txn f clk input s = Inr (r, s') \<and> v_accountId input = in_accountId inp"
proof -
  from assms obtain p where p: "fund_begin s userId inp = Inr p" "fund_finish f clk p s = (Inr r, s')"
    by (auto simp: fundAccount_def split: sum.splits)
  from p(2) have "txn f clk (p_input p) s = Inr (r, s')"
    by (auto simp: fund_finish_def sqlite_transaction_def split: option.splits if_splits sum.splits)
  with fund_begin_accountId [OF p(1)] show ?thesis by blast
qed

lemma fund_begin_part_000_accountId:
  "fund_begin_part_000 s userId inp = Inr p \<Longrightarrow> v_accountId (p_input p) = in_accountId inp"
  by (auto simp: fund_begin_part_000_def split: sum.splits if_splits)

lemma fundAccount_part_000_success:
  assumes "fundAccount_part_000 f clk s userId inp = (Inr r, s')"
  shows "funded_only s s' (in_accountId inp)"
proof -
  from assms obtain p where p: "fund_begin_part_000 s userId inp = Inr p"
    by (auto simp: fundAccount_part_000_def split: sum.splits)
  note x = fund_begin_part_000_accountId [OF p]
  from assms p have "funded_only s s' (v_accountId (p_input p))"
    by (auto simp: fundAccount_part_000_def fund_insert_part_000_def fund_update_part_000_def
        fund_fetch_part_000_def Let_def funded_only_set split: option.splits if_splits)
  then show ?thesis
    unfolding x .
qed

text \<open>
  C10. A successful funding call on account \<open>X\<close>, by either handler, appends one row for
  \<open>X\<close> to the transactions table and changes nothing else but the balance of \<open>X\<close>: every
  other account row, every earlier transaction row, the users and the sessions are as
  before, and so are the id, number, type, owner and status of \<open>X\<close>.
\<close>

theorem fundAccount_frame:
  "(fundAccount f clk s userId inp = (Inr r, s') \<longrightarrow> funded_only s s' (in_accountId inp))
   \<and> (fundAccount_part_000 f clk s userId inp0 = (Inr r, s') \<longrightarrow> funded_only s s' (in_accountId inp0))"
proof (intro conjI impI)
  assume "fundAccount f clk s userId inp = (Inr r, s')"
  then obtain input where "txn f clk input s = Inr (r, s')" "v_accountId input = in_accountId inp"
    using fundAccount_success by blast
  then show "funded_only s s' (in_accountId inp)"
    using txn_success [of f clk input s r s'] funded_only_add by metis
next
  assume "fundAccount_part_000 f clk s userId inp0 = (Inr r, s')"
  then show "funded_only s s' (in_accountId inp0)"
    by (rule fundAccount_part_000_success)
qed

lemmas schema_eval = fund_schema_def check_fundingSource_def card_def routing_re_def

lemmas demo_eval = demo_store_def demo_account_def demo_row_def demo_clock_def

lemmas store_eval = select_account_def insert_transaction_def add_to_balance_def set_balance_def
  latest_transaction_def next_rowid_def sql_round2_toFixed2 double_add_def Let_def

lemmas fundAccount_eval = fundAccount_def fund_begin_def fund_finish_def sqlite_transaction_def
  txn_def

lemmas fundAccount_part_000_eval = fundAccount_part_000_def fund_begin_part_000_def
  fund_insert_part_000_def fund_update_part_000_def fund_fetch_part_000_def
  z_number_positive_def normalize_part_000_def

lemma demo_fund:
  "\<exists>r s'. fundAccount NoFault demo_clock demo_store 2
       \<lparr>in_accountId = 1, in_amount = AmountString ''2.50'', in_fundingSource = card\<rparr> = (Inr r, s')"
  by (simp add: fundAccount_eval amount_eval schema_eval demo_eval store_eval)

lemma demo_fund_part_000:
  "\<exists>r s'. fundAccount_part_000 NoFault demo_clock demo_store 2
       \<lparr>in_accountId = 1, in_amount = Finite (5 / 2), in_fundingSource = card\<rparr> = (Inr r, s')"
  by (simp add: fundAccount_part_000_eval amount_eval schema_eval demo_eval store_eval)

theorem fundAccount_frame_witness:
  "(\<exists>r s'. fundAccount NoFault demo_clock demo_store 2
       \<lparr>in_accountId = 1, in_amount = AmountString ''2.50'', in_fundingSource = card\<rparr> = (Inr r, s')
      \<and> funded_only demo_store s' 1)
   \<and> (\<exists>r s'. fundAccount_part_000 NoFault demo_clock demo_store 2
       \<lparr>in_accountId = 1, in_amount = Finite (5 / 2), in_fundingSource = card\<rparr> = (Inr r, s')
      \<and> funded_only demo_store s' 1)"
proof
  let ?inp = "\<lparr>in_accountId = 1, in_amount = AmountString ''2.50'', in_fundingSource = card\<rparr>"
  let ?num = "\<lparr>in_accountId = 1, in_amount = Finite (5 / 2), in_fundingSource = card\<rparr>"
  from demo_fund obtain r s' where
    a: "fundAccount NoFault demo_clock demo_store 2 ?inp = (Inr r, s')" by blast
  then have "funded_only demo_store s' (in_accountId ?inp)"
    using fundAccount_frame [of NoFault demo_clock demo_store 2 ?inp r s'] by blast
  with a show "\<exists>r s'. fundAccount NoFault demo_clock demo_store 2 ?inp = (Inr r, s')
      \<and> funded_only demo_store s' 1" by auto
  from demo_fund_part_000 obtain r s' where
    b: "fundAccount_part_000 NoFault demo_clock demo_store 2 ?num = (Inr r, s')" by blast
  then have "funded_only demo_store s' (in_accountId ?num)"
    using fundAccount_frame [of NoFault demo_clock demo_store 2 _ r s' ?num] by blast
  with b show "\<exists>r s'. fundAccount_part_000 NoFault demo_clock demo_store 2 ?num = (Inr r, s')
      \<and> funded_only demo_store s' 1" by auto
qed

section \<open>The balance invariant\<close>

text \<open>
  The handler of \<open>account.ts\<close> keeps the balance invariant while the ledgers are small and
  loses it when they are not. First the small ledgers.
\<close>

lemma ledger_sum_insert:
  "ledger_sum (insert_transaction s X amount d c p) Y =
     ledger_sum s Y + (if Y = X then decimal2 amount else 0)"
  by (simp add: ledger_sum_def insert_transaction_def Let_def)

lemma ledger_sum_add_to_balance [simp]: "ledger_sum (add_to_balance s amount X) Y = ledger_sum s Y"
  by (simp add: ledger_sum_def add_to_balance_def)

lemma two_decimals_sum_list: "list_all two_decimals xs \<Longrightarrow> two_decimals (sum_list xs)"
  by (induction xs) (simp_all add: two_decimals_zero two_decimals_add)

lemma two_decimals_ledger_sum: "two_decimals (ledger_sum s X)"
  unfolding ledger_sum_def
  by (rule two_decimals_sum_list) (simp add: list_all_iff decimal2_two_decimals)

lemma ledger_sum_nonneg:
  assumes "ledger_wellformed s"
  shows "0 \<le> ledger_sum s X"
proof -
  from assms have "0 \<le> decimal2 (txn_amount t)" if "t \<in> set (transactions s)" for t
    using that by (auto simp: ledger_wellformed_def list_all_iff intro: decimal2_nonneg)
  then show ?thesis
    unfolding ledger_sum_def by (intro sum_list_nonneg) auto
qed

lemma ledger_below_iff:
  "ledger_below M s \<longleftrightarrow> (\<forall>X \<in> acc_id ` set (accounts s). ledger_sum s X < M)"
  by (auto simp: ledger_below_def list_all_iff)

lemma balances_exact_iff:
  "balances_exact s \<longleftrightarrow>
     (\<forall>a \<in> set (accounts s). acc_balance a = to_double (ledger_sum s (acc_id a)))"
  by (simp add: balances_exact_def list_all_iff)

text \<open>
  A normalized amount whose two-decimal value is below \<open>2\<^sup>4\<^sup>4\<close> is the double of that
  value.
\<close>

lemma to_double_power_46: "to_double (2 ^ 46) = 2 ^ 46"
  using to_double_dyadic [of "2 ^ 46" 0] by simp

lemma amount_exact:
  assumes a: "a = to_double z" and z: "two_decimals z" "0 \<le> z"
    and small: "decimal2 a < 2 ^ 44"
  shows "decimal2 a = z"
proof -
  have "z < 2 ^ 46"
  proof (rule ccontr)
    assume "\<not> z < 2 ^ 46"
    then have big: "2 ^ 46 \<le> z" by simp
    have "(2::rat) powi (- 1022) \<le> 2 powi 46"
      by (rule power_int_increasing) simp_all
    then have "2 powi (- 1022) \<le> (2::rat) ^ 46" by simp
    then have "to_double (2 ^ 46) \<le> to_double z" using big by (rule to_double_mono)
    then have "2 ^ 46 \<le> a" unfolding a to_double_power_46 .
    moreover have "\<bar>decimal2 a - a\<bar> \<le> 1 / 200" by (rule decimal2_nearest)
    ultimately have "2 ^ 46 - 1 / 200 \<le> decimal2 a" by linarith
    with small show False by simp
  qed
  with z show ?thesis unfolding a by (rule double_of_cents)
qed

text \<open>
  The \<open>UPDATE\<close> below \<open>2\<^sup>4\<^sup>4\<close>: the doubles of two whole numbers of cents are added and
  rounded to the double of their sum. The three roundings together are off by at most
  \<open>1 / 256\<close>, less than half a cent.
\<close>

lemma error_below_44:
  assumes "two_decimals K" and "0 \<le> K" and "K < 2 ^ 44"
  shows "\<bar>to_double K - K\<bar> \<le> 1 / 1024"
proof -
  from assms(1,2) have "K = 0 \<or> 1 / 100 \<le> K" by (rule two_decimals_cases)
  then show ?thesis
  proof
    assume "K = 0"
    then show ?thesis by (simp add: to_double_zero)
  next
    assume K: "1 / 100 \<le> K"
    have "(2::rat) powi (- 1022) \<le> 2 powi (- 7)"
      by (rule power_int_increasing) simp_all
    also have "\<dots> \<le> 1 / 100" by (simp add: power_int_minus)
    finally have "2 powi (- 1022) \<le> K" using K by simp
    then have "\<bar>to_double K - K\<bar> \<le> 2 powi (int 44 - 54)"
      using assms(3) by (rule to_double_error_below) simp
    then show ?thesis by (simp add: power_int_minus)
  qed
qed

lemma update_below_44:
  assumes K: "two_decimals K" "0 \<le> K" and k: "two_decimals k" "1 / 100 \<le> k"
    and small: "K + k < 2 ^ 44"
  shows "sql_round2 (double_add (to_double K) (to_double k)) = to_double (K + k)"
proof -
  from k(2) have k0: "0 \<le> k" by simp
  from small K(2) k0 have sK: "K < 2 ^ 44" and sk: "k < 2 ^ 44" by simp_all
  have eK: "\<bar>to_double K - K\<bar> \<le> 1 / 1024" using K sK by (rule error_below_44)
  have ek: "\<bar>to_double k - k\<bar> \<le> 1 / 1024" using k(1) k0 sk by (rule error_below_44)
  define y where "y = to_double K + to_double k"
  have "0 \<le> to_double K" using K(2) by (rule to_double_nonneg)
  moreover have "1 / 100 - 1 / 1024 \<le> to_double k" using ek k(2) by linarith
  ultimately have ylo: "1 / 128 \<le> y" unfolding y_def by simp
  have "(2::rat) powi (- 1022) \<le> 2 powi (- 7)"
    by (rule power_int_increasing) simp_all
  also have "\<dots> = 1 / 128" by (simp add: power_int_minus)
  finally have normal: "2 powi (- 1022) \<le> y" using ylo by simp
  have "y \<le> K + k + 1 / 512" unfolding y_def using eK ek by linarith
  with small have "y < 2 ^ 45" by simp
  with normal have "\<bar>to_double y - y\<bar> \<le> 2 powi (int 45 - 54)"
    by (rule to_double_error_below) simp
  then have ey: "\<bar>to_double y - y\<bar> \<le> 1 / 512" by (simp add: power_int_minus)
  have "\<bar>to_double y - (K + k)\<bar> \<le> 1 / 256"
    using ey eK ek unfolding y_def by linarith
  then have "\<bar>to_double y - (K + k)\<bar> < 1 / 200" by simp
  with two_decimals_add [OF K(1) k(1)] have "decimal2 (to_double y) = K + k"
    by (rule decimal2_unique)
  then show ?thesis
    by (simp add: sql_round2_def double_add_def y_def)
qed

lemma fund_begin_amount:
  assumes "fund_begin s userId inp = Inr p"
  shows "\<exists>z. v_amount (p_input p) = to_double z \<and> two_decimals z \<and> 1 / 100 \<le> z"
proof -
  from assms obtain a where pa: "parse_amount (in_amount inp) = Inr a"
    and a: "v_amount (p_input p) = a" and big: "\<not> a < to_double (1 / 100)"
    by (auto simp: fund_begin_def fund_schema_def split: sum.splits if_splits)
  from parse_amount_cents [OF pa] obtain z where z: "a = to_double z" "two_decimals z" "0 \<le> z"
    by blast
  from z(2,3) have "z = 0 \<or> 1 / 100 \<le> z" by (rule two_decimals_cases)
  moreover have "z \<noteq> 0"
  proof
    assume "z = 0"
    with z(1) have "a = 0" by (simp add: to_double_zero)
    with big show False by (simp add: to_double_cent)
  qed
  ultimately have "1 / 100 \<le> z" by simp
  with a z show ?thesis by blast
qed

lemma fund_begin_select:
  "fund_begin s userId inp = Inr p \<Longrightarrow> p_account p = select_account s (v_accountId (p_input p)) userId"
  by (auto simp: fund_begin_def fund_schema_def split: sum.splits if_splits)

lemma select_account_mem:
  "select_account s X userId = Some a \<Longrightarrow> X \<in> acc_id ` set (accounts s)"
  by (auto simp: select_account_def find_Some_iff)

lemma map_acc_id_balance:
  "map acc_id (map (\<lambda>a. if acc_id a = X then a\<lparr>acc_balance := h a\<rparr> else a) rows) = map acc_id rows"
  by (induction rows) simp_all

lemma funded_ids:
  "acc_id ` set (accounts (add_to_balance (insert_transaction s X amount d c p) amount X)) =
     acc_id ` set (accounts s)"
proof -
  have "map acc_id (accounts (add_to_balance (insert_transaction s X amount d c p) amount X)) =
      map acc_id (accounts s)"
    by (simp add: add_to_balance_def insert_transaction_def Let_def map_acc_id_balance)
  then have "set (map acc_id (accounts (add_to_balance (insert_transaction s X amount d c p) amount X))) =
      set (map acc_id (accounts s))"
    by (simp only:)
  then show ?thesis by (simp only: set_map)
qed

text \<open>The effect of a successful funding step.\<close>

lemma funded_wellformed:
  assumes "ledger_wellformed s" and "0 \<le> amount" and "X \<in> acc_id ` set (accounts s)"
  shows "ledger_wellformed (add_to_balance (insert_transaction s X amount d c p) amount X)"
  unfolding ledger_wellformed_def funded_ids
  using assms
  by (simp add: ledger_wellformed_def add_to_balance_def insert_transaction_def Let_def)

lemma funded_below:
  assumes "ledger_wellformed s" and "0 \<le> amount"
    and "ledger_below M (add_to_balance (insert_transaction s X amount d c p) amount X)"
  shows "ledger_below M s"
  unfolding ledger_below_iff
proof
  fix Y
  assume "Y \<in> acc_id ` set (accounts s)"
  with assms(3)
  have "ledger_sum (add_to_balance (insert_transaction s X amount d c p) amount X) Y < M"
    unfolding ledger_below_iff funded_ids by blast
  then have "ledger_sum s Y + (if Y = X then decimal2 amount else 0) < M"
    by (simp only: ledger_sum_add_to_balance ledger_sum_insert)
  moreover have "0 \<le> decimal2 amount" using assms(2) by (rule decimal2_nonneg)
  ultimately show "ledger_sum s Y < M" by (simp split: if_splits)
qed

lemma funded_exact:
  assumes wf: "ledger_wellformed s" and ex: "balances_exact s"
    and amount: "amount = to_double z" "two_decimals z" "1 / 100 \<le> z"
    and X: "X \<in> acc_id ` set (accounts s)"
    and below: "ledger_below (2 ^ 44) (add_to_balance (insert_transaction s X amount d c p) amount X)"
  shows "balances_exact (add_to_balance (insert_transaction s X amount d c p) amount X)"
proof -
  let ?s' = "add_to_balance (insert_transaction s X amount d c p) amount X"
  from amount(3) have z0: "0 \<le> z" by simp
  from below X have "ledger_sum ?s' X < 2 ^ 44"
    unfolding ledger_below_iff funded_ids by blast
  then have sumX: "ledger_sum s X + decimal2 amount < 2 ^ 44"
    by (simp add: ledger_sum_insert)
  have K0: "0 \<le> ledger_sum s X" using wf by (rule ledger_sum_nonneg)
  from sumX K0 have "decimal2 amount < 2 ^ 44" by simp
  with amount(1,2) z0 have dz: "decimal2 amount = z" by (rule amount_exact)
  from sumX have small: "ledger_sum s X + z < 2 ^ 44" unfolding dz .
  have upd: "sql_round2 (double_add (to_double (ledger_sum s X)) amount) =
      to_double (ledger_sum s X + z)"
    unfolding amount(1)
    using two_decimals_ledger_sum K0 amount(2,3) small by (rule update_below_44)
  have "acc_balance a' = to_double (ledger_sum ?s' (acc_id a'))" if "a' \<in> set (accounts ?s')" for a'
  proof -
    from that obtain a where a: "a \<in> set (accounts s)"
      and a': "a' = (if acc_id a = X
                     then a\<lparr>acc_balance := sql_round2 (double_add (acc_balance a) amount)\<rparr> else a)"
      by (auto simp: add_to_balance_def insert_transaction_def Let_def)
    from ex a have bal: "acc_balance a = to_double (ledger_sum s (acc_id a))"
      by (simp add: balances_exact_iff)
    show ?thesis
    proof (cases "acc_id a = X")
      case True
      with a' bal upd show ?thesis
        by (simp add: ledger_sum_insert dz)
    next
      case False
      with a' bal show ?thesis
        by (simp add: ledger_sum_insert)
    qed
  qed
  then show ?thesis by (simp add: balances_exact_iff)
qed

lemma fundAccount_exact:
  assumes wf: "ledger_wellformed s"
    and ex: "ledger_below (2 ^ 44) s \<longrightarrow> balances_exact s"
  shows "ledger_wellformed (snd (fundAccount f clk s userId inp))"
    and "ledger_below (2 ^ 44) (snd (fundAccount f clk s userId inp)) \<longrightarrow>
         balances_exact (snd (fundAccount f clk s userId inp))"
proof -
  obtain r s' where rs: "fundAccount f clk s userId inp = (r, s')"
    by (cases "fundAccount f clk s userId inp")
  have "ledger_wellformed s' \<and> (ledger_below (2 ^ 44) s' \<longrightarrow> balances_exact s')"
  proof (cases r)
    case (Inl e)
    with rs have "s' = s" by (intro fundAccount_failure [of f clk s userId inp e s']) simp
    with wf ex show ?thesis by simp
  next
    case (Inr res)
    with rs have ok: "fundAccount f clk s userId inp = (Inr res, s')" by simp
    then obtain p where p: "fund_begin s userId inp = Inr p" "fund_finish f clk p s = (Inr res, s')"
      by (auto simp: fundAccount_def split: sum.splits)
    from p(2) obtain account where acc: "p_account p = Some account"
      and t: "txn f clk (p_input p) s = Inr (res, s')"
      by (auto simp: fund_finish_def sqlite_transaction_def split: option.splits if_splits sum.splits)
    from acc fund_begin_select [OF p(1)]
    have X: "v_accountId (p_input p) \<in> acc_id ` set (accounts s)"
      by (auto dest: select_account_mem)
    from fund_begin_amount [OF p(1)] obtain z where z: "v_amount (p_input p) = to_double z"
      "two_decimals z" "1 / 100 \<le> z" by blast
    from z(3) have "0 \<le> z" by simp
    then have a0: "0 \<le> v_amount (p_input p)" unfolding z(1) by (rule to_double_nonneg)
    note s' = txn_success [OF t]
    have w: "ledger_wellformed s'"
      unfolding s' using wf a0 X by (rule funded_wellformed)
    have "balances_exact s'" if b: "ledger_below (2 ^ 44) s'"
    proof -
      from wf a0 b [unfolded s'] have "ledger_below (2 ^ 44) s"
        by (rule funded_below)
      with ex have "balances_exact s" by simp
      with wf show ?thesis
        unfolding s' using z X b [unfolded s'] by (rule funded_exact)
    qed
    with w show ?thesis by simp
  qed
  with rs show "ledger_wellformed (snd (fundAccount f clk s userId inp))"
    and "ledger_below (2 ^ 44) (snd (fundAccount f clk s userId inp)) \<longrightarrow>
         balances_exact (snd (fundAccount f clk s userId inp))"
    by simp_all
qed

lemma createAccount_exact:
  assumes wf: "ledger_wellformed s"
    and ex: "ledger_below M s \<longrightarrow> balances_exact s"
    and c: "createAccount s userId accountType draws clk = Some (r, s')"
  shows "ledger_wellformed s' \<and> (ledger_below M s' \<longrightarrow> balances_exact s')"
proof -
  from createAccount_effect [OF c]
  have tx: "transactions s' = transactions s"
    and cases: "s' = s \<or> (\<exists>a. accounts s' = accounts s @ [a] \<and> acc_id a \<notin> acc_id ` set (accounts s)
          \<and> acc_balance a = 0)"
    by auto
  from cases show ?thesis
  proof
    assume "s' = s"
    with wf ex show ?thesis by simp
  next
    assume "\<exists>a. accounts s' = accounts s @ [a] \<and> acc_id a \<notin> acc_id ` set (accounts s)
          \<and> acc_balance a = 0"
    then obtain a where a: "accounts s' = accounts s @ [a]" "acc_id a \<notin> acc_id ` set (accounts s)"
      "acc_balance a = 0" by blast
    have sum: "ledger_sum s' Y = ledger_sum s Y" for Y
      by (simp add: ledger_sum_def tx)
    have "txn_accountId t \<noteq> acc_id a" if "t \<in> set (transactions s)" for t
    proof -
      from that wf have "txn_accountId t \<in> acc_id ` set (accounts s)"
        by (simp add: ledger_wellformed_def list_all_iff)
      with a(2) show ?thesis by metis
    qed
    then have "filter (\<lambda>t. txn_accountId t = acc_id a \<and> txn_status t = ''completed'') (transactions s) = []"
      by (simp add: filter_empty_conv)
    then have new: "ledger_sum s (acc_id a) = 0"
      by (simp add: ledger_sum_def)
    have w: "ledger_wellformed s'"
      using wf a(1) by (auto simp: ledger_wellformed_def tx list_all_iff)
    have "balances_exact s'" if b: "ledger_below M s'"
    proof -
      from b a(1) have "ledger_below M s"
        by (simp add: ledger_below_def sum)
      with ex have "balances_exact s" by simp
      then show ?thesis
        using a(1,3) new by (simp add: balances_exact_def sum to_double_zero)
    qed
    with w show ?thesis by simp
  qed
qed

lemma exec_exact:
  assumes "ledger_wellformed s \<and> (ledger_below (2 ^ 44) s \<longrightarrow> balances_exact s)"
    and "exec x s = Some s'"
  shows "ledger_wellformed s' \<and> (ledger_below (2 ^ 44) s' \<longrightarrow> balances_exact s')"
proof (cases x)
  case (CreateAccount userId accountType draws clk)
  with assms(2) obtain r where "createAccount s userId accountType draws clk = Some (r, s')"
    by auto
  with assms(1) show ?thesis
    using createAccount_exact [of s "2 ^ 44" userId accountType draws clk r s'] by blast
next
  case (FundAccount f clk userId inp)
  with assms(2) have "s' = snd (fundAccount f clk s userId inp)" by simp
  with assms(1) show ?thesis using fundAccount_exact [of s f clk userId inp] by simp
qed (use assms in auto)

lemma reachable_exact:
  "reachable s \<Longrightarrow> ledger_wellformed s \<and> (ledger_below (2 ^ 44) s \<longrightarrow> balances_exact s)"
proof (induction rule: reachable.induct)
  case (reachable_init s)
  then show ?case by (simp add: balances_exact_def ledger_wellformed_def)
next
  case (reachable_exec s x s')
  from reachable_exec.IH reachable_exec.hyps(2) show ?case by (rule exec_exact)
qed

text \<open>
  Where the handler of \<open>account.ts\<close> keeps the invariant: in every store that a sequence of
  core operations reaches from a store without accounts, and in which the ledger of every
  account sums to less than \<open>2\<^sup>4\<^sup>4\<close> (17,592,186,044,416), the balance of every account is
  the double of the sum of its ledger and stands for that sum.
\<close>

lemma balance_invariant_below:
  assumes "reachable s" and "ledger_below (2 ^ 44) s"
  shows "balances_exact s" and "balance_invariant s"
proof -
  from reachable_exact [OF assms(1)] assms(2)
  have wf: "ledger_wellformed s" and ex: "balances_exact s" by simp_all
  show "balances_exact s" by (rule ex)
  have "decimal2 (acc_balance a) = ledger_sum s (acc_id a)" if "a \<in> set (accounts s)" for a
  proof -
    from that assms(2) have "ledger_sum s (acc_id a) < 2 ^ 44"
      by (simp add: ledger_below_def list_all_iff)
    moreover have "(2::rat) ^ 44 \<le> 2 ^ 46" by simp
    ultimately have "ledger_sum s (acc_id a) < 2 ^ 46" by linarith
    with two_decimals_ledger_sum ledger_sum_nonneg [OF wf]
    have "decimal2 (to_double (ledger_sum s (acc_id a))) = ledger_sum s (acc_id a)"
      by (rule double_of_cents)
    with ex that show ?thesis by (simp add: balances_exact_iff)
  qed
  then show "balance_invariant s" by (simp add: balance_invariant_def list_all_iff)
qed

text \<open>The example of a ledger that is not small.\<close>

lemma exec_open:
  "exec (CreateAccount 1 Checking [fresh_draw] demo_clock) empty_store = Some opened_store"
  by (simp add: createAccount_def generateAccountNumber_2 empty_store_def opened_store_def
      opened_account_def insert_account_def next_rowid_def demo_clock_def)

text \<open>
  The doubles of the example. Between \<open>2\<^sup>4\<^sup>5\<close> and \<open>2\<^sup>4\<^sup>6\<close> doubles are \<open>1 / 128\<close> apart:
  \<open>45035996273704.96\<close> is read as \<open>45035996273704 + 123 / 128\<close>, and adding the double of
  \<open>0.01\<close> to a double there moves it by one step of \<open>1 / 128\<close>.
\<close>

lemma large_double:
  "to_double (4503599627370496 / 100) = 5764607523034235 / 128"
  "to_double (4503599627370497 / 100) = 1441151880758559 / 32"
  "to_double (4503599627370498 / 100) = 5764607523034237 / 128"
  using to_double_scaled [of 7 "4503599627370496 / 100" 5764607523034235]
    to_double_scaled [of 7 "4503599627370497 / 100" 5764607523034236]
    to_double_scaled [of 7 "4503599627370498 / 100" 5764607523034237]
  by simp_all

lemma large_decimal2:
  "decimal2 (5764607523034235 / 128) = 4503599627370496 / 100"
  "decimal2 (1441151880758559 / 32) = 4503599627370497 / 100"
  "decimal2 (5764607523034237 / 128) = 4503599627370498 / 100"
  "decimal2 (2882303761517119 / 64) = 4503599627370498 / 100"
  "decimal2 (5764607523034235 / 576460752303423488) = 1 / 100"
  by (rule decimal2_unique; simp add: two_decimals_def)+

lemma large_sum:
  "double_add 0 (5764607523034235 / 128) = 5764607523034235 / 128"
  "double_add (5764607523034235 / 128) (5764607523034235 / 576460752303423488) =
     1441151880758559 / 32"
  "double_add (1441151880758559 / 32) (5764607523034235 / 576460752303423488) =
     5764607523034237 / 128"
  "double_add (5764607523034237 / 128) (5764607523034235 / 576460752303423488) =
     2882303761517119 / 64"
  unfolding double_add_def
  using to_double_scaled [of 7 "0 + 5764607523034235 / 128" 5764607523034235]
    to_double_scaled [of 7 "5764607523034235 / 128 + 5764607523034235 / 576460752303423488"
      5764607523034236]
    to_double_scaled [of 7 "1441151880758559 / 32 + 5764607523034235 / 576460752303423488"
      5764607523034237]
    to_double_scaled [of 7 "5764607523034237 / 128 + 5764607523034235 / 576460752303423488"
      5764607523034238]
  by simp_all

lemma large_round:
  "sql_round2 (5764607523034235 / 128) = 5764607523034235 / 128"
  "sql_round2 (1441151880758559 / 32) = 1441151880758559 / 32"
  "sql_round2 (5764607523034237 / 128) = 5764607523034237 / 128"
  "sql_round2 (2882303761517119 / 64) = 5764607523034237 / 128"
  "toFixed2 (5764607523034235 / 128) = 5764607523034235 / 128"
  "toFixed2 (1441151880758559 / 32) = 1441151880758559 / 32"
  "toFixed2 (5764607523034237 / 128) = 5764607523034237 / 128"
  "toFixed2 (5764607523034235 / 576460752303423488) = 5764607523034235 / 576460752303423488"
  unfolding sql_round2_def toFixed2_def large_decimal2 large_double
  by (simp_all add: to_double_cent)

lemma parse_large:
  "parse_amount (AmountString ''45035996273704.96'') = Inr (5764607523034235 / 128)"
proof -
  have tr: "trim (units ''45035996273704.96'') = units ''45035996273704.96''"
    by (simp add: trim_def is_space_def units_def)
  have g: "test amount_re (units ''45035996273704.96'')"
    by (simp add: amount_re_def digit_def units_def)
  have d: "decimal_value (units ''45035996273704.96'') = 4503599627370496 / 100"
    by (simp add: decimal_value_def digits_value_def units_def)
  have "parse_amount (AmountString ''45035996273704.96'') =
      Inr (toFixed2 (Number (units ''45035996273704.96'')))"
    using g by (simp add: parse_amount_def preprocess_amount_def tr)
  then show ?thesis
    unfolding toFixed2_def Number_def d large_double large_decimal2 .
qed

lemma parse_cent:
  "parse_amount (AmountString ''0.01'') = Inr (5764607523034235 / 576460752303423488)"
proof -
  have "parse_amount (AmountString ''0.01'') = Inr (toFixed2 (to_double (1 / 100)))"
    by (simp add: parse_amount_def preprocess_amount_def trim_def is_space_def units_def
        amount_re_def digit_def Number_def decimal_value_def digits_value_def)
  then show ?thesis
    unfolding to_double_cent large_round .
qed

lemmas drift_eval = fundAccount_def fund_begin_def fund_finish_def sqlite_transaction_def txn_def
  fund_schema_def check_fundingSource_def card_def large_text_def cent_text_def parse_large
  parse_cent select_account_def insert_transaction_def add_to_balance_def latest_transaction_def
  next_rowid_def Let_def large_sum large_round to_double_cent opened_store_def opened_account_def
  drift_store_def drift_row_def demo_clock_def

text \<open>
  Four funding calls. The first three move the balance to \<open>\<dots>704.96\<close>, \<open>\<dots>704.97\<close> and
  \<open>\<dots>704.98\<close>; the fourth adds one cent to \<open>\<dots>704.9765625\<close>, which gives the double
  \<open>\<dots>704.984375\<close>, and \<open>round(X, 2)\<close> takes that back to \<open>\<dots>704.98\<close>.
\<close>

lemma fund_drift_1:
  "fundAccount NoFault demo_clock opened_store 1 large_text =
     (Inr \<lparr>res_transaction = Some (drift_row 1 (5764607523034235 / 128)),
           res_newBalance = 5764607523034235 / 128\<rparr>,
      drift_store (5764607523034235 / 128) [drift_row 1 (5764607523034235 / 128)])"
  by (simp add: drift_eval)

lemma fund_drift_2:
  "fundAccount NoFault demo_clock
     (drift_store (5764607523034235 / 128) [drift_row 1 (5764607523034235 / 128)]) 1 cent_text =
     (Inr \<lparr>res_transaction = Some (drift_row 1 (5764607523034235 / 128)),
           res_newBalance = 1441151880758559 / 32\<rparr>,
      drift_store (1441151880758559 / 32)
        [drift_row 1 (5764607523034235 / 128),
         drift_row 2 (5764607523034235 / 576460752303423488)])"
  by (simp add: drift_eval)

lemma fund_drift_3:
  "fundAccount NoFault demo_clock
     (drift_store (1441151880758559 / 32)
        [drift_row 1 (5764607523034235 / 128),
         drift_row 2 (5764607523034235 / 576460752303423488)]) 1 cent_text =
     (Inr \<lparr>res_transaction = Some (drift_row 1 (5764607523034235 / 128)),
           res_newBalance = 5764607523034237 / 128\<rparr>,
      settled_store)"
  by (simp add: drift_eval settled_store_def)

lemma fund_drift_4:
  "fundAccount NoFault demo_clock settled_store 1 cent_text =
     (Inr \<lparr>res_transaction = Some (drift_row 1 (5764607523034235 / 128)),
           res_newBalance = 5764607523034237 / 128\<rparr>,
      drifted_store)"
  by (simp add: drift_eval settled_store_def drifted_store_def)

lemma exec_all_reachable: "reachable s \<Longrightarrow> exec_all xs s = Some s' \<Longrightarrow> reachable s'"
proof (induction xs arbitrary: s)
  case Nil
  then show ?case by simp
next
  case (Cons x xs)
  from Cons.prems(2) obtain s1 where s1: "exec x s = Some s1" "exec_all xs s1 = Some s'"
    by (auto split: option.splits)
  from Cons.prems(1) s1(1) have "reachable s1" by (rule reachable_exec)
  then show ?case using s1(2) by (rule Cons.IH)
qed

lemma exec_drift: "exec_all drift_ops empty_store = Some settled_store"
  unfolding drift_ops_def exec_all.simps exec_open option.case
  by (simp only: exec.simps fund_drift_1 fund_drift_2 fund_drift_3 snd_conv option.case)

lemma drift_sums:
  "ledger_sum settled_store 1 = 4503599627370498 / 100"
  "ledger_sum drifted_store 1 = 4503599627370499 / 100"
  by (simp_all add: ledger_sum_def settled_store_def drifted_store_def drift_store_def
      drift_row_def large_decimal2)

text \<open>
  C3 fails for the handler of \<open>account.ts\<close>, the one that the claim cites. Balances and
  amounts are doubles, and the \<open>UPDATE\<close> adds doubles and rounds the sum with
  \<open>round(X, 2)\<close>. Between \<open>2\<^sup>4\<^sup>5\<close> and \<open>2\<^sup>4\<^sup>6\<close> doubles are \<open>1 / 128\<close> apart, more than half
  a cent. After the account was opened and funded with \<open>45035996273704.96\<close> and twice with
  \<open>0.01\<close>, the balance is the double \<open>45035996273704.9765625\<close>, which stands for
  \<open>45035996273704.98\<close>, the sum of the three ledger entries: the invariant holds. One more
  funding with \<open>0.01\<close> succeeds, reports the new balance \<open>45035996273704.98\<close> and adds a
  fourth ledger entry, and it leaves the balance as it was: the ledger entries now stand
  for \<open>45035996273704.96\<close>, \<open>0.01\<close>, \<open>0.01\<close> and \<open>0.01\<close>, whose sum is
  \<open>45035996273704.99\<close>, one cent more than the balance.
\<close>

theorem balance_drifts_from_ledger:
  "exec_all drift_ops empty_store = Some settled_store
   \<and> reachable settled_store
   \<and> map acc_balance (accounts settled_store) = [5764607523034237 / 128]
   \<and> decimal2 (5764607523034237 / 128) = 4503599627370498 / 100
   \<and> ledger_sum settled_store 1 = 4503599627370498 / 100
   \<and> balance_invariant settled_store
   \<and> fundAccount NoFault demo_clock settled_store 1 cent_text =
       (Inr \<lparr>res_transaction = Some (drift_row 1 (5764607523034235 / 128)),
             res_newBalance = 5764607523034237 / 128\<rparr>,
        drifted_store)
   \<and> exec (FundAccount NoFault demo_clock 1 cent_text) settled_store = Some drifted_store
   \<and> reachable drifted_store
   \<and> map acc_balance (accounts drifted_store) = [5764607523034237 / 128]
   \<and> map (\<lambda>t. decimal2 (txn_amount t)) (transactions drifted_store) =
       [4503599627370496 / 100, 1 / 100, 1 / 100, 1 / 100]
   \<and> ledger_sum drifted_store 1 = 4503599627370499 / 100
   \<and> \<not> balance_invariant drifted_store"
proof (intro conjI)
  show e: "exec_all drift_ops empty_store = Some settled_store" by (rule exec_drift)
  have "reachable empty_store"
    by (rule reachable_init) (simp_all add: empty_store_def)
  then show r: "reachable settled_store" using e by (rule exec_all_reachable)
  show "map acc_balance (accounts settled_store) = [5764607523034237 / 128]"
    by (simp add: settled_store_def drift_store_def)
  show "decimal2 (5764607523034237 / 128) = 4503599627370498 / 100"
    by (rule large_decimal2)
  show "ledger_sum settled_store 1 = 4503599627370498 / 100"
    by (rule drift_sums)
  have id: "acc_id (opened_account\<lparr>acc_balance := 5764607523034237 / 128\<rparr>) = 1"
    by (simp add: opened_account_def)
  have bal: "decimal2 (acc_balance (opened_account\<lparr>acc_balance := 5764607523034237 / 128\<rparr>)) =
      4503599627370498 / 100"
    by (simp add: large_decimal2)
  have acc3: "accounts settled_store = [opened_account\<lparr>acc_balance := 5764607523034237 / 128\<rparr>]"
    by (simp add: settled_store_def drift_store_def)
  have acc4: "accounts drifted_store = [opened_account\<lparr>acc_balance := 5764607523034237 / 128\<rparr>]"
    by (simp add: drifted_store_def drift_store_def)
  show "balance_invariant settled_store"
    unfolding balance_invariant_def acc3 list.pred_inject bal id drift_sums by simp
  show "fundAccount NoFault demo_clock settled_store 1 cent_text =
       (Inr \<lparr>res_transaction = Some (drift_row 1 (5764607523034235 / 128)),
             res_newBalance = 5764607523034237 / 128\<rparr>,
        drifted_store)"
    by (rule fund_drift_4)
  show x: "exec (FundAccount NoFault demo_clock 1 cent_text) settled_store = Some drifted_store"
    by (simp only: exec.simps fund_drift_4 snd_conv)
  from r x show "reachable drifted_store" by (rule reachable_exec)
  show "map acc_balance (accounts drifted_store) = [5764607523034237 / 128]"
    by (simp add: drifted_store_def drift_store_def)
  show "map (\<lambda>t. decimal2 (txn_amount t)) (transactions drifted_store) =
       [4503599627370496 / 100, 1 / 100, 1 / 100, 1 / 100]"
    by (simp add: drifted_store_def drift_store_def drift_row_def large_decimal2)
  show "ledger_sum drifted_store 1 = 4503599627370499 / 100"
    by (rule drift_sums)
  show "\<not> balance_invariant drifted_store"
    unfolding balance_invariant_def acc4 list.pred_inject bal id drift_sums by simp
qed

section \<open>The funding step: returned entry, atomicity, concurrent calls\<close>

lemmas example_eval = opened_store_def opened_account_def funded_store_def funded_row_def
  demo_clock_def earlier_clock_def later_clock_def one_text_def one_number_def
  first_row_000_def second_row_000_def

lemma fund_same_millisecond:
  "fundAccount NoFault demo_clock funded_store 1 one_text =
     (Inr \<lparr>res_transaction = Some funded_row, res_newBalance = 7 / 2\<rparr>,
      funded_store\<lparr>accounts := [opened_account\<lparr>acc_balance := 7 / 2\<rparr>],
        transactions := [funded_row,
          \<lparr>txn_id = 2, txn_accountId = 1, txn_type = ''deposit'', txn_amount = 1,
           txn_description = ''Funding from card'', txn_status = ''completed'',
           txn_createdAt = ''2026-11-02T09:30:00.000Z'',
           txn_processedAt = Some ''2026-11-02T09:30:00.000Z''\<rparr>],
        seq_transactions := 2\<rparr>)"
  by (simp add: fundAccount_eval amount_eval schema_eval store_eval example_eval)

lemma fund_clock_set_back:
  "fundAccount NoFault earlier_clock funded_store 1 one_text =
     (Inr \<lparr>res_transaction = Some funded_row, res_newBalance = 7 / 2\<rparr>,
      funded_store\<lparr>accounts := [opened_account\<lparr>acc_balance := 7 / 2\<rparr>],
        transactions := [funded_row,
          \<lparr>txn_id = 2, txn_accountId = 1, txn_type = ''deposit'', txn_amount = 1,
           txn_description = ''Funding from card'', txn_status = ''completed'',
           txn_createdAt = ''2026-11-02T09:29:59.000Z'',
           txn_processedAt = Some ''2026-11-02T09:29:59.000Z''\<rparr>],
        seq_transactions := 2\<rparr>)"
  by (simp add: fundAccount_eval amount_eval schema_eval store_eval example_eval)

lemma fund_part_000_first:
  "fundAccount_part_000 NoFault demo_clock opened_store 1 one_number =
     (Inr \<lparr>res_transaction = Some first_row_000, res_newBalance = 1\<rparr>,
      opened_store\<lparr>accounts := [opened_account\<lparr>acc_balance := 1\<rparr>],
        transactions := [first_row_000], seq_transactions := 1\<rparr>)"
  by (simp add: fundAccount_part_000_eval amount_eval schema_eval store_eval example_eval)

lemma fund_part_000_second:
  "fundAccount_part_000 NoFault later_clock
     (opened_store\<lparr>accounts := [opened_account\<lparr>acc_balance := 1\<rparr>],
        transactions := [first_row_000], seq_transactions := 1\<rparr>) 1 one_number =
     (Inr \<lparr>res_transaction = Some first_row_000, res_newBalance = 2\<rparr>,
      opened_store\<lparr>accounts := [opened_account\<lparr>acc_balance := 2\<rparr>],
        transactions := [first_row_000, second_row_000], seq_transactions := 2\<rparr>)"
  by (simp add: fundAccount_part_000_eval amount_eval schema_eval store_eval example_eval)

lemma fund_part_000_update_fails:
  "fundAccount_part_000 FailUpdate demo_clock opened_store 1 one_number =
     (Inl InternalError, opened_store\<lparr>transactions := [first_row_000], seq_transactions := 1\<rparr>)"
  by (simp add: fundAccount_part_000_eval amount_eval schema_eval store_eval example_eval)

lemma race_part_000:
  "run step_part_000 racing_schedule (opened_store, [Start_000 1 one_number, Start_000 1 one_number]) =
     (opened_store\<lparr>accounts := [opened_account\<lparr>acc_balance := 1\<rparr>],
        transactions := [first_row_000, second_row_000], seq_transactions := 2\<rparr>,
      [Returned_000 (Inr \<lparr>res_transaction = Some first_row_000, res_newBalance = 1\<rparr>),
       Returned_000 (Inr \<lparr>res_transaction = Some first_row_000, res_newBalance = 1\<rparr>)])"
  by (simp add: racing_schedule_def fundAccount_part_000_eval amount_eval schema_eval store_eval example_eval)

lemma latest_snoc:
  "\<forall>u \<in> set ts. txn_createdAt u < txn_createdAt t \<Longrightarrow> latest (ts @ [t]) = Some t"
  by (induction ts) (auto split: option.splits)

lemma latest_transaction_inserted:
  assumes "\<forall>u \<in> set (transactions s). txn_accountId u = X \<longrightarrow> txn_createdAt u < c"
  shows "latest_transaction (add_to_balance (insert_transaction s X amount d c p) amount X) X =
     Some (last (transactions (insert_transaction s X amount d c p)))"
  using assms
  by (simp add: latest_transaction_def add_to_balance_def insert_transaction_def Let_def latest_snoc)

text \<open>
  The handler of \<open>account.ts\<close> returns the entry it inserted whenever every earlier entry
  of the account has a strictly smaller \<open>created_at\<close> than the clock reading of the call.
\<close>

lemma fundAccount_returns_inserted:
  assumes "fundAccount f clk s userId inp = (Inr r, s')"
    and "\<forall>u \<in> set (transactions s). txn_accountId u = in_accountId inp \<longrightarrow> txn_createdAt u < toISOString clk"
  shows "res_transaction r = Some (last (transactions s'))"
proof -
  from assms(1) obtain input where t: "txn f clk input s = Inr (r, s')"
    and x: "v_accountId input = in_accountId inp"
    using fundAccount_success by blast
  note s' = txn_success [OF t]
  from t have "res_transaction r = latest_transaction s' (v_accountId input)"
    unfolding s' by (auto simp: txn_def Let_def split: if_splits option.splits)
  also have "\<dots> = Some (last (transactions (insert_transaction s (v_accountId input) (v_amount input)
           (''Funding from '' @ fs_type (v_fundingSource input)) (toISOString clk)
           (Some (toISOString clk)))))"
    unfolding s' using assms(2) x by (intro latest_transaction_inserted) simp
  also have "\<dots> = Some (last (transactions s'))"
    unfolding s' by (simp add: add_to_balance_def)
  finally show ?thesis .
qed

text \<open>
  C8 fails in both handlers: the entry returned is read back as the latest entry of the
  account by \<open>created_at\<close>, not as the row just inserted. In \<open>account.ts\<close>, a call whose
  clock reading equals the \<open>created_at\<close> of an earlier entry (two fundings within one
  millisecond), or lies before it (the clock was set back), inserts row 2 and returns row
  1. In \<open>part_000\<close>, where \<open>created_at\<close> is the database default with a resolution of one
  second, the second of two calls within one second inserts row 2 and returns row 1.
\<close>

theorem returned_entry_is_an_older_one:
  "fst (fundAccount NoFault demo_clock funded_store 1 one_text) =
     Inr \<lparr>res_transaction = Some funded_row, res_newBalance = 7 / 2\<rparr>
   \<and> map txn_id (transactions (snd (fundAccount NoFault demo_clock funded_store 1 one_text))) = [1, 2]
   \<and> fst (fundAccount NoFault earlier_clock funded_store 1 one_text) =
     Inr \<lparr>res_transaction = Some funded_row, res_newBalance = 7 / 2\<rparr>
   \<and> map txn_id (transactions (snd (fundAccount NoFault earlier_clock funded_store 1 one_text))) = [1, 2]
   \<and> fst (fundAccount_part_000 NoFault later_clock
          (snd (fundAccount_part_000 NoFault demo_clock opened_store 1 one_number)) 1 one_number) =
     Inr \<lparr>res_transaction = Some first_row_000, res_newBalance = 2\<rparr>
   \<and> map txn_id (transactions (snd (fundAccount_part_000 NoFault later_clock
          (snd (fundAccount_part_000 NoFault demo_clock opened_store 1 one_number)) 1 one_number))) = [1, 2]
   \<and> txn_id funded_row = 1 \<and> txn_id first_row_000 = 1"
  unfolding fund_same_millisecond fund_clock_set_back fund_part_000_first fund_part_000_second
    fst_conv snd_conv
  by (simp add: funded_store_def funded_row_def first_row_000_def second_row_000_def)

text \<open>
  In \<open>account.ts\<close> a funding call is all or nothing: it fails and leaves the store as it
  was, or it succeeds, without a fault, and the store has both the ledger entry and the
  new balance. A persistence fault at any statement of the funding step is reported as
  \<open>InternalError\<close>.
\<close>

lemma fundAccount_all_or_nothing:
  assumes "fundAccount f clk s userId inp = (r, s')"
  shows "(\<exists>e. r = Inl e \<and> s' = s)
       \<or> (\<exists>res amount d. r = Inr res \<and> f = NoFault \<and>
             s' = add_to_balance (insert_transaction s (in_accountId inp) amount d
                    (toISOString clk) (Some (toISOString clk))) amount (in_accountId inp))"
proof (cases r)
  case (Inl e)
  with assms have "s' = s" by (intro fundAccount_failure [of f clk s userId inp e s']) simp
  with Inl show ?thesis by blast
next
  case (Inr res)
  with assms obtain input where t: "txn f clk input s = Inr (res, s')"
    and x: "v_accountId input = in_accountId inp"
    using fundAccount_success by blast
  from t have "f = NoFault"
    by (cases f) (simp_all add: txn_def Let_def)
  with txn_success [OF t] x Inr show ?thesis by auto
qed

lemma fundAccount_fault:
  assumes "f \<noteq> NoFault" and "fund_begin s userId inp = Inr p"
    and "p_account p = Some account" and "acc_status account = ''active''"
  shows "fundAccount f clk s userId inp = (Inl InternalError, s)"
  using assms
  by (cases f) (simp_all add: fundAccount_def fund_finish_def sqlite_transaction_def txn_def Let_def)

lemma part_000_after_insert:
  "run step_part_000 [(0, demo_clock), (0, demo_clock)] (opened_store, [Start_000 1 one_number]) =
     (opened_store\<lparr>transactions := [first_row_000], seq_transactions := 1\<rparr>,
      [Inserted_000 (\<lparr>v_accountId = 1, v_amount = 1, v_fundingSource = card\<rparr>, opened_account)])"
  by (simp add: fundAccount_part_000_eval amount_eval schema_eval store_eval example_eval)

text \<open>
  C2 fails for the handler of \<open>part_000\<close>, which runs the \<open>INSERT\<close> and the \<open>UPDATE\<close> as two
  separate awaited statements outside any transaction. When the \<open>UPDATE\<close> fails, the call
  fails with \<open>InternalError\<close> and the ledger entry stays in the store while the balance is
  still 0.00, so the balance no longer is the sum of the ledger. Without any failure the
  same store, with the entry and without its balance, is what other requests see at the
  \<open>await\<close> between the two statements.
\<close>

theorem part_000_entry_without_balance:
  "fundAccount_part_000 FailUpdate demo_clock opened_store 1 one_number =
     (Inl InternalError, opened_store\<lparr>transactions := [first_row_000], seq_transactions := 1\<rparr>)
   \<and> fst (run step_part_000 [(0, demo_clock), (0, demo_clock)] (opened_store, [Start_000 1 one_number])) =
       opened_store\<lparr>transactions := [first_row_000], seq_transactions := 1\<rparr>
   \<and> map acc_balance (accounts (opened_store\<lparr>transactions := [first_row_000], seq_transactions := 1\<rparr>)) = [0]
   \<and> ledger_sum (opened_store\<lparr>transactions := [first_row_000], seq_transactions := 1\<rparr>) 1 = 1
   \<and> balance_invariant opened_store
   \<and> \<not> balance_invariant (opened_store\<lparr>transactions := [first_row_000], seq_transactions := 1\<rparr>)"
  unfolding fund_part_000_update_fails part_000_after_insert fst_conv
  by (simp add: balance_invariant_def ledger_sum_def opened_store_def opened_account_def
      first_row_000_def decimal2_id two_decimals_def)

lemma fund_begin_call_for:
  assumes "call_for X A (Start userId inp)" and "fund_begin s userId inp = Inr p"
  shows "call_for X A (Selected p)"
  using assms by (auto simp: fund_begin_def fund_schema_def split: sum.splits if_splits)

lemma balances_of_funded:
  "balances_of (add_to_balance (insert_transaction s X A d c p) A X) X =
     map (\<lambda>b. sql_round2 (double_add b A)) (balances_of s X)"
proof -
  have "map acc_balance (filter (\<lambda>a. acc_id a = X)
          (map (\<lambda>a. if acc_id a = X
                    then a\<lparr>acc_balance := sql_round2 (double_add (acc_balance a) A)\<rparr> else a) rows)) =
        map (\<lambda>b. sql_round2 (double_add b A)) (map acc_balance (filter (\<lambda>a. acc_id a = X) rows))"
    for rows
    by (induction rows) simp_all
  then show ?thesis
    by (simp add: balances_of_def add_to_balance_def insert_transaction_def Let_def)
qed

lemma entries_of_funded:
  "length (entries_of (add_to_balance (insert_transaction s X A d c p) A X) X) =
     Suc (length (entries_of s X))"
  by (simp add: entries_of_def add_to_balance_def insert_transaction_def Let_def)

text \<open>One piece of one call.\<close>

lemma step_effect:
  assumes c: "call_for X A c" and st: "step clk s c = (s1, c1)"
  shows "call_for X A c1"
    and "is_success c \<Longrightarrow> c1 = c \<and> s1 = s"
    and "\<not> is_success c1 \<Longrightarrow> s1 = s"
    and "\<not> is_success c \<Longrightarrow> is_success c1 \<Longrightarrow>
           balances_of s1 X = map (\<lambda>b. sql_round2 (double_add b A)) (balances_of s X)
           \<and> length (entries_of s1 X) = Suc (length (entries_of s X))"
proof -
  show "call_for X A c1"
  proof (cases c)
    case (Start userId inp)
    show ?thesis
    proof (cases "fund_begin s userId inp")
      case (Inl e)
      with st Start show ?thesis by auto
    next
      case (Inr p)
      from c Start have "call_for X A (Start userId inp)" by simp
      then have "call_for X A (Selected p)" using Inr by (rule fund_begin_call_for)
      with st Start Inr show ?thesis by auto
    qed
  next
    case (Selected p)
    with st show ?thesis by (auto split: prod.splits)
  next
    case (Returned r)
    with st show ?thesis by auto
  qed
  show "c1 = c \<and> s1 = s" if "is_success c"
    using that st by (cases c) auto
  show "s1 = s" if "\<not> is_success c1"
  proof (cases c)
    case (Start userId inp)
    with st show ?thesis by (auto split: sum.splits)
  next
    case (Selected p)
    with st obtain r where r: "fund_finish NoFault clk p s = (r, s1)" "c1 = Returned r"
      by (auto split: prod.splits)
    with that obtain e where "r = Inl e" by (cases r) auto
    with r(1) show ?thesis by (auto dest: fund_finish_failure)
  next
    case (Returned r)
    with st show ?thesis by auto
  qed
  show "balances_of s1 X = map (\<lambda>b. sql_round2 (double_add b A)) (balances_of s X)
      \<and> length (entries_of s1 X) = Suc (length (entries_of s X))"
    if "\<not> is_success c" "is_success c1"
  proof (cases c)
    case (Start userId inp)
    with st that(2) show ?thesis by (auto split: sum.splits)
  next
    case (Selected p)
    with st that(2) obtain res where r: "fund_finish NoFault clk p s = (Inr res, s1)"
      by (cases "fund_finish NoFault clk p s"; cases "fst (fund_finish NoFault clk p s)") auto
    then have t: "txn NoFault clk (p_input p) s = Inr (res, s1)"
      by (auto simp: fund_finish_def sqlite_transaction_def split: option.splits if_splits sum.splits)
    from c Selected have XA: "v_accountId (p_input p) = X" "v_amount (p_input p) = A" by simp_all
    show ?thesis
      unfolding txn_success [OF t] XA
      by (simp add: balances_of_funded entries_of_funded)
  next
    case (Returned r)
    with st that show ?thesis by auto
  qed
qed

lemma count_update:
  assumes "i < length xs" and "\<not> P (xs ! i)"
  shows "length (filter P (xs[i := y])) = length (filter P xs) + (if P y then 1 else 0)"
  using assms
proof (induction xs arbitrary: i)
  case Nil
  then show ?case by simp
next
  case (Cons x xs)
  then show ?case by (cases i) auto
qed

lemma map_funpow_Suc: "map (f ^^ k) (map f xs) = map (f ^^ Suc k) xs"
  by (simp add: funpow_swap1)

lemma run_invariant:
  assumes "list_all (call_for X A) cs"
    and "run step sched (s, cs) = (s', cs')"
  shows "length cs' = length cs \<and>
     (\<exists>k. length (filter is_success cs') = length (filter is_success cs) + k
        \<and> balances_of s' X = map ((\<lambda>b. sql_round2 (double_add b A)) ^^ k) (balances_of s X)
        \<and> length (entries_of s' X) = length (entries_of s X) + k)"
  using assms
proof (induction sched arbitrary: s cs)
  case Nil
  then have "s' = s" "cs' = cs" by simp_all
  then show ?case by (auto intro: exI [of _ 0])
next
  case (Cons ev sched)
  obtain i clk where ev: "ev = (i, clk)" by (cases ev)
  show ?case
  proof (cases "i < length cs")
    case False
    with Cons.prems(2) ev have "run step sched (s, cs) = (s', cs')" by simp
    with Cons.IH [OF Cons.prems(1)] show ?thesis by blast
  next
    case True
    obtain s1 c1 where st: "step clk s (cs ! i) = (s1, c1)" by (cases "step clk s (cs ! i)")
    with Cons.prems(2) ev True have rest: "run step sched (s1, cs[i := c1]) = (s', cs')" by simp
    from Cons.prems(1) True have ci: "call_for X A (cs ! i)"
      by (simp add: list_all_length)
    note eff = step_effect [OF ci st]
    from Cons.prems(1) eff(1) have calls1: "list_all (call_for X A) (cs[i := c1])"
      by (auto simp: list_all_iff dest: subsetD [OF set_update_subset_insert])
    show ?thesis
    proof (cases "\<not> is_success (cs ! i) \<and> is_success c1")
      case True
      then have b1: "balances_of s1 X = map (\<lambda>b. sql_round2 (double_add b A)) (balances_of s X)"
        and e1: "length (entries_of s1 X) = Suc (length (entries_of s X))"
        using eff(4) by simp_all
      from True \<open>i < length cs\<close>
      have n1: "length (filter is_success (cs[i := c1])) = Suc (length (filter is_success cs))"
        by (simp add: count_update)
      from Cons.IH [OF calls1 rest]
      obtain k where k: "length cs' = length (cs[i := c1])"
        "length (filter is_success cs') = length (filter is_success (cs[i := c1])) + k"
        "balances_of s' X = map ((\<lambda>b. sql_round2 (double_add b A)) ^^ k) (balances_of s1 X)"
        "length (entries_of s' X) = length (entries_of s1 X) + k"
        by blast
      have "length (filter is_success cs') = length (filter is_success cs) + Suc k"
        using k(2) n1 by simp
      moreover have "balances_of s' X =
          map ((\<lambda>b. sql_round2 (double_add b A)) ^^ Suc k) (balances_of s X)"
        unfolding k(3) b1 by (rule map_funpow_Suc)
      moreover have "length (entries_of s' X) = length (entries_of s X) + Suc k"
        using k(4) e1 by simp
      ultimately show ?thesis using k(1) by (intro conjI exI [of _ "Suc k"]) simp_all
    next
      case False
      have same: "s1 = s \<and> length (filter is_success (cs[i := c1])) = length (filter is_success cs)"
      proof (cases "is_success (cs ! i)")
        case True
        with eff(2) have "c1 = cs ! i" "s1 = s" by simp_all
        then show ?thesis by simp
      next
        case ns: False
        with False have "\<not> is_success c1" by simp
        with eff(3) ns \<open>i < length cs\<close> show ?thesis by (simp add: count_update)
      qed
      from Cons.IH [OF calls1 rest] same
      show ?thesis by simp
    qed
  qed
qed

text \<open>
  The handler of \<open>account.ts\<close> loses no update: when \<open>N\<close> calls that fund account \<open>X\<close>
  with the normalized amount \<open>A\<close> have all returned successfully, under any schedule, the
  balance of \<open>X\<close> is its balance before the calls with the update \<open>round(balance + A, 2)\<close>
  applied \<open>N\<close> times, as \<open>N\<close> calls one after the other leave it, and \<open>X\<close> has \<open>N\<close> more
  ledger entries.
\<close>

lemma fundAccount_no_lost_update:
  assumes calls: "list_all (call_for X A) cs" and fresh: "list_all (\<lambda>c. \<not> is_success c) cs"
    and sched: "run step sched (s, cs) = (s', cs')"
    and finished: "list_all is_success cs'"
  shows "balances_of s' X =
           map ((\<lambda>B. sql_round2 (double_add B A)) ^^ length cs) (balances_of s X)"
    and "length (entries_of s' X) = length (entries_of s X) + length cs"
proof -
  from run_invariant [OF calls sched]
  obtain k where k: "length cs' = length cs"
    "length (filter is_success cs') = length (filter is_success cs) + k"
    "balances_of s' X = map ((\<lambda>b. sql_round2 (double_add b A)) ^^ k) (balances_of s X)"
    "length (entries_of s' X) = length (entries_of s X) + k"
    by blast
  from fresh have "filter is_success cs = []"
    by (simp add: list_all_iff filter_empty_conv)
  moreover from finished have "filter is_success cs' = cs'"
    by (simp add: list_all_iff)
  ultimately have n: "k = length cs" using k(1,2) by simp
  from k(3) n show "balances_of s' X =
      map ((\<lambda>B. sql_round2 (double_add B A)) ^^ length cs) (balances_of s X)" by simp
  from k(4) n show "length (entries_of s' X) = length (entries_of s X) + length cs" by simp
qed

text \<open>
  While the balance stays below \<open>2\<^sup>4\<^sup>4\<close>, these \<open>N\<close> updates give the balance that the claim
  names: for a balance that is the double of \<open>K\<close> cents and an amount that is the double of
  \<open>k\<close> cents, the double of \<open>K + N * k\<close> cents.
\<close>

lemma updates_below_44:
  assumes K: "two_decimals K" "0 \<le> K" and k: "two_decimals k" "1 / 100 \<le> k"
    and small: "K + of_nat N * k < 2 ^ 44"
  shows "((\<lambda>B. sql_round2 (double_add B (to_double k))) ^^ N) (to_double K) =
     to_double (K + of_nat N * k)"
  using small
proof (induction N)
  case 0
  show ?case by simp
next
  case (Suc N)
  from k(2) have k0: "0 \<le> k" by simp
  have step: "K + of_nat N * k + k = K + of_nat (Suc N) * k" by (simp add: algebra_simps)
  from Suc.prems k0 have s1: "K + of_nat N * k < 2 ^ 44" by (simp add: algebra_simps)
  from Suc.prems have s2: "K + of_nat N * k + k < 2 ^ 44" unfolding step .
  have td: "two_decimals (K + of_nat N * k)"
  proof -
    have "two_decimals (of_nat n * k)" for n
      by (induction n) (simp_all add: two_decimals_zero two_decimals_add k(1) algebra_simps)
    with K(1) show ?thesis by (rule two_decimals_add)
  qed
  have nn: "0 \<le> K + of_nat N * k" using K(2) k0 by simp
  have "((\<lambda>B. sql_round2 (double_add B (to_double k))) ^^ Suc N) (to_double K) =
      sql_round2 (double_add (to_double (K + of_nat N * k)) (to_double k))"
    by (simp add: Suc.IH [OF s1])
  also have "\<dots> = to_double (K + of_nat N * k + k)"
    using td nn k s2 by (rule update_below_44)
  finally show ?case unfolding step .
qed

text \<open>
  C1 fails for the handler of \<open>part_000\<close>, which writes back a balance computed from the
  account row it read before its first \<open>await\<close>. Two requests of 1.00 each on an account
  with balance 0.00, taking turns at every \<open>await\<close> so that both read the account before
  either writes, both succeed and both report the new balance 1.00; the store then has
  two ledger entries and the balance 1.00, where the claim requires
  \<open>round(0.00 + 2 * 1.00, 2) = 2.00\<close>.
\<close>

theorem part_000_lost_update:
  "run step_part_000 racing_schedule (opened_store, [Start_000 1 one_number, Start_000 1 one_number]) =
     (opened_store\<lparr>accounts := [opened_account\<lparr>acc_balance := 1\<rparr>],
        transactions := [first_row_000, second_row_000], seq_transactions := 2\<rparr>,
      [Returned_000 (Inr \<lparr>res_transaction = Some first_row_000, res_newBalance = 1\<rparr>),
       Returned_000 (Inr \<lparr>res_transaction = Some first_row_000, res_newBalance = 1\<rparr>)])
   \<and> acc_balance opened_account = 0
   \<and> sql_round2 (acc_balance opened_account + 2 * 1) = 2"
  unfolding race_part_000
  by (simp add: opened_account_def sql_round2_def decimal2_id two_decimals_def to_double_numeral)

end
